theory Spec2Isabelle
  imports Main
begin

section \<open>Data model of PredictedProcess.ts\<close>

text \<open>
  JavaScript objects are compared by identity. An \<open>AbortSignal\<close>, a spawned
  \<open>ChildProcess\<close> and a promise are therefore represented by the number that
  names the object: signals by an arbitrary natural number, a child process by
  the position of its \<open>spawn\<close> call in the history of the instance, and the
  promise created by \<open>run\<close> for a queued request by the position of that request
  in arrival order.
\<close>

type_synonym AbortSignal = nat
type_synonym pid = nat
type_synonym promise_id = nat

text \<open>
  The four \<open>Error\<close> values the class creates: \<open>'Signal already aborted'\<close>,
  \<open>'Process aborted by signal.'\<close>, \<open>'Process exited with error'\<close> and
  \<open>'Process exited with code ${code}'\<close>. The exit code handed to the \<open>close\<close>
  listener is a number or \<open>null\<close>.
\<close>

datatype error = AlreadyCancelled | Aborted | SpawnError | NonZeroExit "int option"

datatype outcome = Resolved | Rejected error

text \<open>
  \<open>QueueItem\<close>: \<open>resolve\<close> and \<open>reject\<close> are the two settling functions of one
  promise (the \<open>result\<close> promise of \<open>run\<close>), kept here as that promise.
\<close>

record QueueItem =
  promise :: promise_id
  signal :: AbortSignal

text \<open>
  The fields of the class: \<open>proc_id\<close> is \<open>id\<close>, \<open>childProcess\<close> is \<open>_childProcess\<close>
  (\<open>None\<close> for \<open>null\<close>) and \<open>memoizeOn\<close> is \<open>_memoize\<close>.
\<close>

record PredictedProcess =
  proc_id :: int
  command :: string
  childProcess :: "pid option"
  memoizeOn :: bool
  queue :: "QueueItem list"
  successfulList :: "AbortSignal list"

text \<open>
  What one call of \<open>exec\<close> creates: the child process with its \<open>error\<close> and
  \<open>close\<close> listeners, the \<open>onAbort\<close> listener on the signal, and the promise it
  returns. \<open>kills\<close> counts the calls of \<open>childProcess.kill()\<close>, which only
  \<open>cleanup\<close> makes, and \<open>settle_calls\<close> the calls of the promise's \<open>resolve\<close> and
  \<open>reject\<close>. \<open>handlers\<close> is the \<open>.then(..).catch(..).finally(this.runNext)\<close>
  chain that \<open>runNext\<close> hangs on the promise, with the queue item the callbacks
  close over.
\<close>

datatype stage = Waiting | Reacted | Finished

record exec_state =
  exec_signal :: "AbortSignal option"
  child_listening :: bool
  abort_listening :: bool
  kills :: nat
  settle_calls :: nat
  settled :: "outcome option"
  handlers :: "(QueueItem \<times> stage) option"

text \<open>
  The instance together with the objects it works on: the signals whose
  \<open>aborted\<close> flag is set, every execution started so far, the promises handed
  out for queued requests, and the number of \<open>error\<close> events that a child
  process emitted when it had no \<open>error\<close> listener: the emitter throws such an
  event, and nothing in the class catches it.
\<close>

record world = PredictedProcess +
  aborted :: "AbortSignal list"
  execs :: "exec_state list"
  promises :: "outcome option list"
  uncaught :: nat

definition new_PredictedProcess :: "int \<Rightarrow> string \<Rightarrow> PredictedProcess" where
  "new_PredictedProcess i c =
     \<lparr>proc_id = i, command = c, childProcess = None, memoizeOn = False,
      queue = [], successfulList = []\<rparr>"

definition init :: "int \<Rightarrow> string \<Rightarrow> world" where
  "init i c =
     \<lparr>proc_id = i, command = c, childProcess = None, memoizeOn = False,
      queue = [], successfulList = [],
      aborted = [], execs = [], promises = [], uncaught = 0\<rparr>"


section \<open>exec: one execution attempt\<close>

definition new_exec :: "AbortSignal option \<Rightarrow> exec_state" where
  "new_exec sg =
     \<lparr>exec_signal = sg, child_listening = True, abort_listening = (sg \<noteq> None),
      kills = 0, settle_calls = 0, settled = None, handlers = None\<rparr>"

definition exec :: "AbortSignal option \<Rightarrow> world \<Rightarrow> pid \<times> world" where
  "exec sg s =
     (length (execs s),
      s\<lparr>childProcess := Some (length (execs s)), execs := execs s @ [new_exec sg]\<rparr>)"

definition cleanup :: "pid \<Rightarrow> world \<Rightarrow> world" where
  "cleanup p s =
     s\<lparr>childProcess := None,
       execs := (execs s)[p := (execs s ! p)
                  \<lparr>child_listening := False, abort_listening := False,
                   kills := Suc (kills (execs s ! p))\<rparr>]\<rparr>"

text \<open>A promise keeps its first settlement; later calls are ignored.\<close>

definition first_settlement :: "outcome \<Rightarrow> outcome option \<Rightarrow> outcome option" where
  "first_settlement out cur = (case cur of None \<Rightarrow> Some out | Some old \<Rightarrow> Some old)"

definition settle :: "pid \<Rightarrow> outcome \<Rightarrow> world \<Rightarrow> world" where
  "settle p out s =
     s\<lparr>execs := (execs s)[p := (execs s ! p)
                  \<lparr>settle_calls := Suc (settle_calls (execs s ! p)),
                   settled := first_settlement out (settled (execs s ! p))\<rparr>]\<rparr>"

definition onAbort :: "pid \<Rightarrow> world \<Rightarrow> world" where
  "onAbort p s = settle p (Rejected Aborted) (cleanup p s)"

definition onError :: "pid \<Rightarrow> world \<Rightarrow> world" where
  "onError p s = settle p (Rejected SpawnError) (cleanup p s)"

definition onClose :: "pid \<Rightarrow> int option \<Rightarrow> world \<Rightarrow> world" where
  "onClose p code s =
     settle p (if code = Some 0 then Resolved else Rejected (NonZeroExit code)) (cleanup p s)"


section \<open>runNext and run\<close>

definition attach :: "pid \<Rightarrow> QueueItem \<Rightarrow> world \<Rightarrow> world" where
  "attach p item s =
     s\<lparr>execs := (execs s)[p := (execs s ! p)\<lparr>handlers := Some (item, Waiting)\<rparr>]\<rparr>"

definition runNext :: "world \<Rightarrow> world" where
  "runNext s =
     (if childProcess s \<noteq> None then s
      else case queue s of
             [] \<Rightarrow> s
           | item # rest \<Rightarrow>
               (let s1 = s\<lparr>queue := rest\<rparr> in
                if memoizeOn s1
                then (case exec (Some (signal item)) s1 of (p, s2) \<Rightarrow> attach p item s2)
                else s1))"

text \<open>The request is pushed on the queue with a new \<open>result\<close> promise.\<close>

definition enqueue :: "AbortSignal \<Rightarrow> world \<Rightarrow> world" where
  "enqueue t s =
     s\<lparr>queue := queue s @ [\<lparr>promise = length (promises s), signal = t\<rparr>],
       promises := promises s @ [None]\<rparr>"

text \<open>What \<open>run\<close> returns: a promise that is already settled, the \<open>result\<close>
  promise of a queued request, or the promise of \<open>exec\<close>.\<close>

datatype returned = Now outcome | Queued promise_id | Exec pid

definition signal_aborted :: "AbortSignal option \<Rightarrow> world \<Rightarrow> bool" where
  "signal_aborted sg s = (case sg of None \<Rightarrow> False | Some t \<Rightarrow> t \<in> set (aborted s))"

definition already_succeeded :: "AbortSignal option \<Rightarrow> world \<Rightarrow> bool" where
  "already_succeeded sg s =
     (case sg of None \<Rightarrow> False | Some t \<Rightarrow> memoizeOn s \<and> t \<in> set (successfulList s))"

definition run :: "AbortSignal option \<Rightarrow> world \<Rightarrow> returned \<times> world" where
  "run sg s =
     (if signal_aborted sg s then (Now (Rejected AlreadyCancelled), s)
      else if already_succeeded sg s then (Now Resolved, s)
      else case sg of
             Some t \<Rightarrow>
               if memoizeOn s
               then (Queued (length (promises s)), runNext (enqueue t s))
               else (case exec sg s of (p, s') \<Rightarrow> (Exec p, s'))
           | None \<Rightarrow> (case exec sg s of (p, s') \<Rightarrow> (Exec p, s')))"

definition memoize :: "'a PredictedProcess_scheme \<Rightarrow> 'a PredictedProcess_scheme" where
  "memoize s = s\<lparr>memoizeOn := True\<rparr>"


section \<open>The callbacks of the chain hung on a drained execution\<close>

definition settle_promise :: "promise_id \<Rightarrow> outcome \<Rightarrow> outcome option list \<Rightarrow> outcome option list" where
  "settle_promise r out ps = ps[r := first_settlement out (ps ! r)]"

text \<open>The \<open>filter\<close> callback of the success branch: resolve and drop every
  element with the same signal, keep the others.\<close>

fun filter_resolve ::
  "AbortSignal \<Rightarrow> QueueItem list \<Rightarrow> outcome option list \<Rightarrow> QueueItem list \<times> outcome option list" where
  "filter_resolve t [] ps = ([], ps)"
| "filter_resolve t (elm # q) ps =
     (if signal elm = t then filter_resolve t q (settle_promise (promise elm) Resolved ps)
      else (case filter_resolve t q ps of (q', ps') \<Rightarrow> (elm # q', ps')))"

definition on_fulfilled :: "QueueItem \<Rightarrow> world \<Rightarrow> world" where
  "on_fulfilled item s =
     (case filter_resolve (signal item) (queue s)
             (settle_promise (promise item) Resolved (promises s)) of
        (q', ps') \<Rightarrow>
          s\<lparr>successfulList := successfulList s @ [signal item], queue := q', promises := ps'\<rparr>)"

definition on_rejected :: "QueueItem \<Rightarrow> error \<Rightarrow> world \<Rightarrow> world" where
  "on_rejected item e s =
     s\<lparr>promises := settle_promise (promise item) (Rejected e) (promises s)\<rparr>"

definition set_stage :: "pid \<Rightarrow> stage \<Rightarrow> world \<Rightarrow> world" where
  "set_stage p st s =
     s\<lparr>execs := (execs s)[p := (execs s ! p)
          \<lparr>handlers := map_option (\<lambda>(item, _). (item, st)) (handlers (execs s ! p))\<rparr>]\<rparr>"

text \<open>The \<open>then\<close> or the \<open>catch\<close> callback, once the promise of \<open>exec\<close> is settled.\<close>

definition react :: "pid \<Rightarrow> world \<Rightarrow> world" where
  "react p s =
     (if p < length (execs s) then
        (case handlers (execs s ! p) of
           Some (item, Waiting) \<Rightarrow>
             (case settled (execs s ! p) of
                None \<Rightarrow> s
              | Some Resolved \<Rightarrow> set_stage p Reacted (on_fulfilled item s)
              | Some (Rejected e) \<Rightarrow> set_stage p Reacted (on_rejected item e s))
         | _ \<Rightarrow> s)
      else s)"

text \<open>The \<open>finally\<close> callback: \<open>this.runNext\<close>.\<close>

definition on_finally :: "pid \<Rightarrow> world \<Rightarrow> world" where
  "on_finally p s =
     (if p < length (execs s) then
        (case handlers (execs s ! p) of
           Some (item, Reacted) \<Rightarrow> runNext (set_stage p Finished s)
         | _ \<Rightarrow> s)
      else s)"


section \<open>Events\<close>

text \<open>
  Everything that can happen to the instance, one synchronous piece of
  JavaScript each: a call of \<open>run\<close> or \<open>memoize\<close>, a signal being aborted, a
  child process emitting \<open>close\<close> or \<open>error\<close>, and the two callbacks of a chain
  (\<open>React\<close> for the \<open>then\<close> or \<open>catch\<close> callback, \<open>Finally\<close> for \<open>this.runNext\<close>).
  Events are taken in any order, which covers every schedule of the micro-task
  queue. The collaborators behave as their interfaces say: \<open>spawn\<close> returns a
  handle, a handle or a signal calls only the listeners that are registered at
  that moment, and the listeners of one signal are called in a row.
\<close>

datatype event =
    Run "AbortSignal option"
  | Memoize
  | Abort AbortSignal
  | Close pid "int option"
  | Error pid
  | React pid
  | Finally pid

definition emit_close :: "pid \<Rightarrow> int option \<Rightarrow> world \<Rightarrow> world" where
  "emit_close p code s =
     (if p < length (execs s) \<and> child_listening (execs s ! p) then onClose p code s else s)"

text \<open>
  A \<open>close\<close> event without a listener is dropped. An \<open>error\<close> event without a
  listener is thrown by the emitter: \<open>cleanup\<close> has removed the only \<open>error\<close>
  listener with \<open>removeAllListeners()\<close>, so an \<open>error\<close> that a child emits after
  its \<open>cleanup\<close> is an uncaught exception. The model counts it and goes on (as a
  process with an \<open>uncaughtException\<close> handler would); the histories of a process
  that dies there are the histories up to that event.
\<close>

definition emit_error :: "pid \<Rightarrow> world \<Rightarrow> world" where
  "emit_error p s =
     (if p < length (execs s) then
        (if child_listening (execs s ! p) then onError p s
         else s\<lparr>uncaught := Suc (uncaught s)\<rparr>)
      else s)"

definition abort_listeners :: "AbortSignal \<Rightarrow> world \<Rightarrow> pid list" where
  "abort_listeners t s =
     filter (\<lambda>p. exec_signal (execs s ! p) = Some t \<and> abort_listening (execs s ! p))
       [0 ..< length (execs s)]"

text \<open>A signal fires once: the flag is set, then every registered listener is called.\<close>

definition abort :: "AbortSignal \<Rightarrow> world \<Rightarrow> world" where
  "abort t s =
     (if t \<in> set (aborted s) then s
      else fold onAbort (abort_listeners t s) (s\<lparr>aborted := t # aborted s\<rparr>))"

fun step :: "event \<Rightarrow> world \<Rightarrow> world" where
  "step (Run sg) s = snd (run sg s)"
| "step Memoize s = memoize s"
| "step (Abort t) s = abort t s"
| "step (Close p code) s = emit_close p code s"
| "step (Error p) s = emit_error p s"
| "step (React p) s = react p s"
| "step (Finally p) s = on_finally p s"

definition run_events :: "event list \<Rightarrow> world \<Rightarrow> world" where
  "run_events evs s = fold step evs s"

definition in_flight :: "world \<Rightarrow> pid \<Rightarrow> bool" where
  "in_flight s p \<longleftrightarrow> p < length (execs s) \<and> child_listening (execs s ! p)"

definition result_of :: "world \<Rightarrow> returned \<Rightarrow> outcome option" where
  "result_of s r =
     (case r of
        Now out \<Rightarrow> Some out
      | Queued q \<Rightarrow> (if q < length (promises s) then promises s ! q else None)
      | Exec p \<Rightarrow> (if p < length (execs s) then settled (execs s ! p) else None))"


section \<open>Auxiliary notions\<close>

text \<open>What \<open>cleanup\<close> followed by a call of \<open>resolve\<close> or \<open>reject\<close> does to the
  execution, and the execution \<open>runNext\<close> starts for a queue item.\<close>

definition finished_exec :: "outcome \<Rightarrow> exec_state \<Rightarrow> exec_state" where
  "finished_exec out e =
     e\<lparr>child_listening := False, abort_listening := False, kills := Suc (kills e),
       settle_calls := Suc (settle_calls e),
       settled := first_settlement out (settled e)\<rparr>"

definition drained_exec :: "QueueItem \<Rightarrow> exec_state" where
  "drained_exec item = (new_exec (Some (signal item)))\<lparr>handlers := Some (item, Waiting)\<rparr>"

text \<open>How the \<open>close\<close> listener settles: \<open>code === 0\<close> resolves, anything else rejects.\<close>

definition close_outcome :: "int option \<Rightarrow> outcome" where
  "close_outcome code = (if code = Some 0 then Resolved else Rejected (NonZeroExit code))"

text \<open>The state of one execution is consistent: either its listeners are still
  attached and nothing has been cleaned up or settled, or \<open>cleanup\<close> ran once and
  the promise was settled by one call.\<close>

definition exec_ok :: "exec_state \<Rightarrow> bool" where
  "exec_ok e \<longleftrightarrow>
     (if child_listening e
      then settled e = None \<and> kills e = 0 \<and> settle_calls e = 0 \<and>
           (abort_listening e \<longleftrightarrow> exec_signal e \<noteq> None)
      else settled e \<noteq> None \<and> kills e = 1 \<and> settle_calls e = 1 \<and> \<not> abort_listening e)"

definition execs_ok :: "world \<Rightarrow> bool" where
  "execs_ok s \<longleftrightarrow> list_all exec_ok (execs s)"

text \<open>An execution without the chain hung on its promise.\<close>

definition core :: "exec_state \<Rightarrow> exec_state" where
  "core e = e\<lparr>handlers := None\<rparr>"

text \<open>
  The queue and the promises of queued requests. Promises are numbered in arrival
  order, so the clauses say: the queue is in arrival order; a queued request is
  unsettled; a request that has been drained arrived before every request still
  queued and after every request drained before it; and its promise is unsettled
  as long as its callback has not run.
\<close>

definition qinv ::
  "QueueItem list \<Rightarrow> outcome option list \<Rightarrow> (QueueItem \<times> stage) option list \<Rightarrow> bool" where
  "qinv q ps hs \<longleftrightarrow>
     sorted_wrt (<) (map promise q) \<and>
     (\<forall>it \<in> set q. promise it < length ps \<and> ps ! promise it = None) \<and>
     (\<forall>p < length hs. \<forall>it st. hs ! p = Some (it, st) \<longrightarrow>
        promise it < length ps \<and>
        (st = Waiting \<longrightarrow> ps ! promise it = None) \<and>
        (\<forall>it' \<in> set q. promise it < promise it') \<and>
        (\<forall>p' < p. \<forall>it' st'. hs ! p' = Some (it', st') \<longrightarrow> promise it' < promise it))"

definition queue_inv :: "world \<Rightarrow> bool" where
  "queue_inv s \<longleftrightarrow> qinv (queue s) (promises s) (map handlers (execs s))"

text \<open>Once the callback of a drained execution has run, the promise of its request
  carries the outcome of the execution.\<close>

definition chain_result :: "world \<Rightarrow> bool" where
  "chain_result s \<longleftrightarrow>
     (\<forall>p < length (execs s). \<forall>it st. handlers (execs s ! p) = Some (it, st) \<longrightarrow> st \<noteq> Waiting \<longrightarrow>
        settled (execs s ! p) \<noteq> None \<and> promises s ! promise it = settled (execs s ! p))"

text \<open>
  Every execution so far was started by \<open>runNext\<close> (none by the direct branch of
  \<open>run\<close>), and: an execution in flight is the latest one and the one in
  \<open>_childProcess\<close>.
\<close>

definition no_direct :: "world \<Rightarrow> bool" where
  "no_direct s \<longleftrightarrow> list_all (\<lambda>e. handlers e \<noteq> None) (execs s)"

definition serial :: "world \<Rightarrow> bool" where
  "serial s \<longleftrightarrow> (\<forall>p. in_flight s p \<longrightarrow> childProcess s = Some p \<and> Suc p = length (execs s))"

text \<open>
  \<open>memoize()\<close> as a method call on a reference: instances live in a store, a
  reference is a position in it, and the method returns \<open>this\<close>.
\<close>

type_synonym store = "PredictedProcess list"

definition memoize_method :: "nat \<Rightarrow> store \<Rightarrow> nat \<times> store" where
  "memoize_method r h = (r, h[r := memoize (h ! r)])"

section \<open>Example histories\<close>

definition cached_and_cancelled :: world where
  "cached_and_cancelled =
     run_events [Memoize, Run (Some 7), Close 0 (Some 0), React 0, Finally 0, Abort 7]
       (init 1 ''test command'')"

definition cached :: world where
  "cached = run_events [Memoize, Run (Some 7), Close 0 (Some 0), React 0] (init 1 ''test command'')"



definition overlapping :: world where
  "overlapping =
     run_events [Memoize, Run (Some 7), Run None, Close 1 (Some 0), Run (Some 8)]
       (init 1 ''test command'')"

definition stranded :: world where
  "stranded =
     run_events [Memoize, Run None, Run (Some 7), Close 0 (Some 0)] (init 1 ''test command'')"

definition cancelled_in_queue :: world where
  "cancelled_in_queue =
     run_events [Memoize, Run (Some 7), Run (Some 8), Abort 8, Close 0 (Some 0), React 0]
       (init 1 ''test command'')"


definition cancelled_first :: world where
  "cancelled_first = run_events [Abort 7] (init 1 ''test command'')"

definition respawned :: world where
  "respawned =
     run_events [Memoize, Run (Some 7), Run None, Close 1 (Some 0), Run (Some 7)]
       (init 1 ''test command'')"

definition abort_then_error :: world where
  "abort_then_error = run_events [Run (Some 7), Abort 7, Error 0] (init 1 ''test command'')"


section \<open>The operations as equations on the fields\<close>

lemma settle_cleanup:
  "settle p out (cleanup p s) =
     s\<lparr>childProcess := None, execs := (execs s)[p := finished_exec out (execs s ! p)]\<rparr>"
  by (cases "p < length (execs s)")
     (simp_all add: settle_def cleanup_def finished_exec_def list_update_beyond)

lemma onAbort_eq:
  "onAbort p s =
     s\<lparr>childProcess := None, execs := (execs s)[p := finished_exec (Rejected Aborted) (execs s ! p)]\<rparr>"
  by (simp add: onAbort_def settle_cleanup)

lemma onError_eq:
  "onError p s =
     s\<lparr>childProcess := None, execs := (execs s)[p := finished_exec (Rejected SpawnError) (execs s ! p)]\<rparr>"
  by (simp add: onError_def settle_cleanup)

lemma onClose_eq:
  "onClose p code s =
     s\<lparr>childProcess := None, execs := (execs s)[p := finished_exec (close_outcome code) (execs s ! p)]\<rparr>"
  by (simp add: onClose_def settle_cleanup close_outcome_def)

lemma runNext_idle:
  "childProcess s \<noteq> None \<or> queue s = [] \<Longrightarrow> runNext s = s"
  by (auto simp: runNext_def)

lemma runNext_spawn:
  "childProcess s = None \<Longrightarrow> queue s = item # rest \<Longrightarrow> memoizeOn s \<Longrightarrow>
   runNext s = s\<lparr>childProcess := Some (length (execs s)), queue := rest,
                 execs := execs s @ [drained_exec item]\<rparr>"
  by (simp add: runNext_def exec_def attach_def drained_exec_def)

lemma runNext_drop:
  "childProcess s = None \<Longrightarrow> queue s = item # rest \<Longrightarrow> \<not> memoizeOn s \<Longrightarrow>
   runNext s = s\<lparr>queue := rest\<rparr>"
  by (simp add: runNext_def)

lemma runNext_cases:
  obtains (idle) "childProcess s \<noteq> None \<or> queue s = []" "runNext s = s"
  | (spawn) item rest where "childProcess s = None" "queue s = item # rest" "memoizeOn s"
      "runNext s = s\<lparr>childProcess := Some (length (execs s)), queue := rest,
                 execs := execs s @ [drained_exec item]\<rparr>"
  | (drop) item rest where "childProcess s = None" "queue s = item # rest" "\<not> memoizeOn s"
      "runNext s = s\<lparr>queue := rest\<rparr>"
proof (cases "childProcess s \<noteq> None \<or> queue s = []")
  case True
  then show ?thesis using idle runNext_idle by blast
next
  case False
  then obtain item rest where q: "childProcess s = None" "queue s = item # rest"
    by (cases "queue s") auto
  show ?thesis
  proof (cases "memoizeOn s")
    case True
    with q show ?thesis using spawn runNext_spawn by blast
  next
    case False
    with q show ?thesis using drop runNext_drop by blast
  qed
qed

lemma run_cases:
  obtains (cancelled) t where "sg = Some t" "t \<in> set (aborted s)"
      "run sg s = (Now (Rejected AlreadyCancelled), s)"
  | (cached) t where "sg = Some t" "t \<notin> set (aborted s)" "memoizeOn s" "t \<in> set (successfulList s)"
      "run sg s = (Now Resolved, s)"
  | (queued) t where "sg = Some t" "t \<notin> set (aborted s)" "memoizeOn s" "t \<notin> set (successfulList s)"
      "run sg s = (Queued (length (promises s)), runNext (enqueue t s))"
  | (direct) "\<not> signal_aborted sg s" "\<not> memoizeOn s \<or> sg = None"
      "run sg s = (Exec (length (execs s)),
                   s\<lparr>childProcess := Some (length (execs s)), execs := execs s @ [new_exec sg]\<rparr>)"
proof (cases sg)
  case None
  then show ?thesis using direct
    by (simp add: run_def signal_aborted_def already_succeeded_def exec_def)
next
  case (Some t)
  show ?thesis
  proof (cases "t \<in> set (aborted s)")
    case True
    with Some show ?thesis using cancelled by (simp add: run_def signal_aborted_def)
  next
    case na: False
    show ?thesis
    proof (cases "memoizeOn s")
      case True
      show ?thesis
      proof (cases "t \<in> set (successfulList s)")
        case True
        with Some na \<open>memoizeOn s\<close> show ?thesis using cached
          by (simp add: run_def signal_aborted_def already_succeeded_def)
      next
        case False
        with Some na \<open>memoizeOn s\<close> show ?thesis using queued
          by (simp add: run_def signal_aborted_def already_succeeded_def)
      qed
    next
      case False
      with Some na show ?thesis using direct
        by (simp add: run_def signal_aborted_def already_succeeded_def exec_def)
    qed
  qed
qed

subsection \<open>A signal firing\<close>

lemma fold_onAbort_fields:
  "aborted (fold onAbort L s) = aborted s"
  "queue (fold onAbort L s) = queue s"
  "promises (fold onAbort L s) = promises s"
  "successfulList (fold onAbort L s) = successfulList s"
  "memoizeOn (fold onAbort L s) = memoizeOn s"
  "proc_id (fold onAbort L s) = proc_id s"
  "command (fold onAbort L s) = command s"
  "length (execs (fold onAbort L s)) = length (execs s)"
  "childProcess (fold onAbort L s) = (if L = [] then childProcess s else None)"
  by (induction L arbitrary: s; simp add: onAbort_eq)+

lemma fold_onAbort_nth:
  "distinct L \<Longrightarrow> q < length (execs s) \<Longrightarrow>
   execs (fold onAbort L s) ! q =
     (if q \<in> set L then finished_exec (Rejected Aborted) (execs s ! q) else execs s ! q)"
proof (induction L arbitrary: s)
  case Nil
  then show ?case by simp
next
  case (Cons p L)
  then show ?case
    by (cases "p = q") (auto simp: onAbort_eq nth_list_update)
qed

lemma abort_listeners_set:
  "q \<in> set (abort_listeners t s) \<longleftrightarrow>
     q < length (execs s) \<and> exec_signal (execs s ! q) = Some t \<and> abort_listening (execs s ! q)"
  by (auto simp: abort_listeners_def)

lemma abort_listeners_distinct: "distinct (abort_listeners t s)"
  by (simp add: abort_listeners_def)

lemma abort_again: "t \<in> set (aborted s) \<Longrightarrow> abort t s = s"
  by (simp add: abort_def)

lemma abort_fields:
  "aborted (abort t s) = (if t \<in> set (aborted s) then aborted s else t # aborted s)"
  "queue (abort t s) = queue s"
  "promises (abort t s) = promises s"
  "successfulList (abort t s) = successfulList s"
  "memoizeOn (abort t s) = memoizeOn s"
  "proc_id (abort t s) = proc_id s"
  "command (abort t s) = command s"
  "length (execs (abort t s)) = length (execs s)"
  by (simp_all add: abort_def fold_onAbort_fields)

lemma abort_childProcess:
  "childProcess (abort t s) =
     (if t \<in> set (aborted s) \<or> abort_listeners t s = [] then childProcess s else None)"
  by (simp add: abort_def fold_onAbort_fields abort_listeners_def)

lemma abort_nth:
  assumes "q < length (execs s)"
  shows "execs (abort t s) ! q =
     (if t \<notin> set (aborted s) \<and> exec_signal (execs s ! q) = Some t \<and> abort_listening (execs s ! q)
      then finished_exec (Rejected Aborted) (execs s ! q) else execs s ! q)"
proof (cases "t \<in> set (aborted s)")
  case True
  then show ?thesis by (simp add: abort_def)
next
  case False
  have L: "abort_listeners t (s\<lparr>aborted := t # aborted s\<rparr>) = abort_listeners t s"
    by (simp add: abort_listeners_def)
  have "execs (abort t s) ! q =
        (if q \<in> set (abort_listeners t s)
         then finished_exec (Rejected Aborted) (execs s ! q) else execs s ! q)"
    using False assms fold_onAbort_nth[OF abort_listeners_distinct, of q "s\<lparr>aborted := t # aborted s\<rparr>" t]
    by (simp add: abort_def L)
  with False assms show ?thesis by (simp add: abort_listeners_set)
qed

subsection \<open>The callbacks\<close>

lemma filter_resolve_fst: "fst (filter_resolve t q ps) = filter (\<lambda>e. signal e \<noteq> t) q"
  by (induction q arbitrary: ps) (simp_all add: case_prod_beta)

lemma filter_resolve_length: "length (snd (filter_resolve t q ps)) = length ps"
  by (induction q arbitrary: ps) (simp_all add: case_prod_beta settle_promise_def)

lemma first_settlement_idem [simp]:
  "first_settlement out (first_settlement out cur) = first_settlement out cur"
  by (simp add: first_settlement_def split: option.splits)

lemma filter_resolve_nth:
  "r < length ps \<Longrightarrow>
   snd (filter_resolve t q ps) ! r =
     (if \<exists>e \<in> set q. signal e = t \<and> promise e = r
      then first_settlement Resolved (ps ! r) else ps ! r)"
proof (induction q arbitrary: ps)
  case Nil
  then show ?case by simp
next
  case (Cons e q)
  show ?case
  proof (cases "signal e = t")
    case True
    have len: "r < length (settle_promise (promise e) Resolved ps)"
      using Cons.prems by (simp add: settle_promise_def)
    show ?thesis
      using True Cons.prems Cons.IH[OF len]
      by (cases "promise e = r") (auto simp: settle_promise_def)
  next
    case False
    then show ?thesis
      using Cons.prems Cons.IH[OF Cons.prems] by (simp add: case_prod_beta)
  qed
qed

lemma react_cases:
  obtains (skip) "react p s = s"
  | (fulfilled) item where "p < length (execs s)" "handlers (execs s ! p) = Some (item, Waiting)"
      "settled (execs s ! p) = Some Resolved"
      "react p s = set_stage p Reacted (on_fulfilled item s)"
  | (rejected) item e where "p < length (execs s)" "handlers (execs s ! p) = Some (item, Waiting)"
      "settled (execs s ! p) = Some (Rejected e)"
      "react p s = set_stage p Reacted (on_rejected item e s)"
  by (atomize_elim, auto simp: react_def split: option.splits stage.splits outcome.splits prod.splits)

lemma on_finally_cases:
  obtains (skip) "on_finally p s = s"
  | (drain) item where "p < length (execs s)" "handlers (execs s ! p) = Some (item, Reacted)"
      "on_finally p s = runNext (set_stage p Finished s)"
  by (atomize_elim, auto simp: on_finally_def split: option.splits stage.splits prod.splits)

lemma on_fulfilled_fields:
  "successfulList (on_fulfilled item s) = successfulList s @ [signal item]"
  "queue (on_fulfilled item s) = filter (\<lambda>e. signal e \<noteq> signal item) (queue s)"
  "promises (on_fulfilled item s) =
     snd (filter_resolve (signal item) (queue s)
            (settle_promise (promise item) Resolved (promises s)))"
  "execs (on_fulfilled item s) = execs s"
  "childProcess (on_fulfilled item s) = childProcess s"
  "memoizeOn (on_fulfilled item s) = memoizeOn s"
  "aborted (on_fulfilled item s) = aborted s"
  "proc_id (on_fulfilled item s) = proc_id s"
  "command (on_fulfilled item s) = command s"
  by (simp_all add: on_fulfilled_def case_prod_beta filter_resolve_fst)

lemma execs_ok_nth: "execs_ok s \<longleftrightarrow> (\<forall>p < length (execs s). exec_ok (execs s ! p))"
  by (simp add: execs_ok_def list_all_length)

lemma exec_ok_new [simp]: "exec_ok (new_exec sg)" "exec_ok (drained_exec item)"
  by (simp_all add: exec_ok_def new_exec_def drained_exec_def)

lemma exec_ok_handlers [simp]: "exec_ok (e\<lparr>handlers := h\<rparr>) = exec_ok e"
  by (simp add: exec_ok_def)

lemma exec_ok_finished: "exec_ok e \<Longrightarrow> child_listening e \<Longrightarrow> exec_ok (finished_exec out e)"
  by (simp add: exec_ok_def finished_exec_def first_settlement_def)

lemma execs_ok_runNext: "execs_ok s \<Longrightarrow> execs_ok (runNext s)"
  by (cases s rule: runNext_cases) (simp_all add: execs_ok_def)

lemma execs_ok_run: "execs_ok s \<Longrightarrow> execs_ok (snd (run sg s))"
proof (cases sg s rule: run_cases)
  case (queued t)
  assume "execs_ok s"
  then have "execs_ok (enqueue t s)" by (simp add: execs_ok_def enqueue_def)
  with queued show ?thesis by (simp add: execs_ok_runNext)
qed (simp_all add: execs_ok_def)

lemma execs_ok_finish:
  "execs_ok s \<Longrightarrow> p < length (execs s) \<Longrightarrow> child_listening (execs s ! p) \<Longrightarrow>
   execs_ok (s\<lparr>childProcess := None, execs := (execs s)[p := finished_exec out (execs s ! p)]\<rparr>)"
  by (auto simp: execs_ok_nth nth_list_update exec_ok_finished)

lemma execs_ok_close: "execs_ok s \<Longrightarrow> execs_ok (emit_close p code s)"
  by (simp add: emit_close_def onClose_eq execs_ok_finish)

lemma execs_ok_uncaught [simp]: "execs_ok (s\<lparr>uncaught := n\<rparr>) = execs_ok s"
  by (simp add: execs_ok_def)

lemma execs_ok_error: "execs_ok s \<Longrightarrow> execs_ok (emit_error p s)"
  by (simp add: emit_error_def onError_eq execs_ok_finish)

lemma exec_ok_listening: "exec_ok e \<Longrightarrow> abort_listening e \<Longrightarrow> child_listening e"
  by (auto simp: exec_ok_def split: if_splits)

lemma execs_ok_abort: "execs_ok s \<Longrightarrow> execs_ok (abort t s)"
  unfolding execs_ok_nth
  by (auto simp: abort_fields abort_nth intro!: exec_ok_finished exec_ok_listening)

lemma set_stage_execs:
  "length (execs (set_stage p st s)) = length (execs s)"
  "q < length (execs s) \<Longrightarrow>
   execs (set_stage p st s) ! q =
     (if q = p then (execs s ! q)\<lparr>handlers := map_option (\<lambda>(item, _). (item, st)) (handlers (execs s ! q))\<rparr>
      else execs s ! q)"
  by (simp_all add: set_stage_def nth_list_update)

lemma set_stage_fields:
  "queue (set_stage p st s) = queue s"
  "promises (set_stage p st s) = promises s"
  "successfulList (set_stage p st s) = successfulList s"
  "childProcess (set_stage p st s) = childProcess s"
  "memoizeOn (set_stage p st s) = memoizeOn s"
  "aborted (set_stage p st s) = aborted s"
  "proc_id (set_stage p st s) = proc_id s"
  "command (set_stage p st s) = command s"
  by (simp_all add: set_stage_def)

lemma on_rejected_fields:
  "successfulList (on_rejected item e s) = successfulList s"
  "queue (on_rejected item e s) = queue s"
  "promises (on_rejected item e s) = settle_promise (promise item) (Rejected e) (promises s)"
  "execs (on_rejected item e s) = execs s"
  "childProcess (on_rejected item e s) = childProcess s"
  "memoizeOn (on_rejected item e s) = memoizeOn s"
  "aborted (on_rejected item e s) = aborted s"
  "proc_id (on_rejected item e s) = proc_id s"
  "command (on_rejected item e s) = command s"
  by (simp_all add: on_rejected_def)

lemma execs_ok_set_stage: "execs_ok s \<Longrightarrow> execs_ok (set_stage p st s)"
  by (auto simp: execs_ok_nth set_stage_execs)

lemma execs_ok_react: "execs_ok s \<Longrightarrow> execs_ok (react p s)"
proof (cases p s rule: react_cases)
  case (fulfilled item)
  assume "execs_ok s"
  then have "execs_ok (on_fulfilled item s)" by (simp add: execs_ok_def on_fulfilled_fields)
  with fulfilled show ?thesis by (simp add: execs_ok_set_stage)
next
  case (rejected item e)
  assume "execs_ok s"
  then have "execs_ok (on_rejected item e s)" by (simp add: execs_ok_def on_rejected_fields)
  with rejected show ?thesis by (simp add: execs_ok_set_stage)
qed simp

lemma execs_ok_finally: "execs_ok s \<Longrightarrow> execs_ok (on_finally p s)"
  by (cases p s rule: on_finally_cases) (simp_all add: execs_ok_set_stage execs_ok_runNext)

lemma execs_ok_step: "execs_ok s \<Longrightarrow> execs_ok (step e s)"
  by (cases e)
     (simp_all add: execs_ok_run execs_ok_close execs_ok_error execs_ok_abort execs_ok_react
        execs_ok_finally, simp add: execs_ok_def memoize_def)

lemma run_events_snoc: "run_events (evs @ [e]) s = step e (run_events evs s)"
  by (simp add: run_events_def)

lemma run_events_append: "run_events (evs @ evs') s = run_events evs' (run_events evs s)"
  by (simp add: run_events_def)

lemma execs_ok_run_events: "execs_ok s \<Longrightarrow> execs_ok (run_events evs s)"
  by (induction evs rule: rev_induct) (simp_all add: run_events_snoc execs_ok_step, simp add: run_events_def)

lemma execs_ok_init: "execs_ok (init i c)"
  by (simp add: execs_ok_def init_def)

lemma execs_ok_reachable: "execs_ok (run_events evs (init i c))"
  by (simp add: execs_ok_run_events execs_ok_init)

lemma core_simps [simp]:
  "exec_signal (core e) = exec_signal e"
  "child_listening (core e) = child_listening e"
  "abort_listening (core e) = abort_listening e"
  "kills (core e) = kills e"
  "settle_calls (core e) = settle_calls e"
  "settled (core e) = settled e"
  "core (e\<lparr>handlers := h\<rparr>) = core e"
  by (simp_all add: core_def)

lemma core_eqD:
  assumes "core e' = core e"
  shows "exec_signal e' = exec_signal e" "child_listening e' = child_listening e"
    "abort_listening e' = abort_listening e" "kills e' = kills e"
    "settle_calls e' = settle_calls e" "settled e' = settled e"
  using assms core_simps by metis+

lemma runNext_execs:
  "length (execs s) \<le> length (execs (runNext s))"
  "p < length (execs s) \<Longrightarrow> execs (runNext s) ! p = execs s ! p"
  by (cases s rule: runNext_cases; simp add: nth_append)+

lemma run_execs:
  "length (execs s) \<le> length (execs (snd (run sg s)))"
  "p < length (execs s) \<Longrightarrow> execs (snd (run sg s)) ! p = execs s ! p"
proof -
  have e: "execs (enqueue t s) = execs s" for t by (simp add: enqueue_def)
  show "length (execs s) \<le> length (execs (snd (run sg s)))"
    by (cases sg s rule: run_cases) (use runNext_execs(1)[of "enqueue _ s"] in \<open>simp_all add: e\<close>)
  show "execs (snd (run sg s)) ! p = execs s ! p" if "p < length (execs s)"
    using that
    by (cases sg s rule: run_cases) (use runNext_execs(2)[of p "enqueue _ s"] in \<open>simp_all add: e nth_append\<close>)
qed

lemma emit_close_execs:
  "length (execs (emit_close p code s)) = length (execs s)"
  "q < length (execs s) \<Longrightarrow>
   execs (emit_close p code s) ! q =
     (if q = p \<and> child_listening (execs s ! p)
      then finished_exec (close_outcome code) (execs s ! p) else execs s ! q)"
  by (simp_all add: emit_close_def onClose_eq nth_list_update)

lemma emit_error_execs:
  "length (execs (emit_error p s)) = length (execs s)"
  "q < length (execs s) \<Longrightarrow>
   execs (emit_error p s) ! q =
     (if q = p \<and> child_listening (execs s ! p)
      then finished_exec (Rejected SpawnError) (execs s ! p) else execs s ! q)"
  by (simp_all add: emit_error_def onError_eq nth_list_update)

lemma react_execs:
  "length (execs (react p s)) = length (execs s)"
  "q < length (execs s) \<Longrightarrow> core (execs (react p s) ! q) = core (execs s ! q)"
  by (cases p s rule: react_cases;
      simp add: set_stage_execs on_fulfilled_fields on_rejected_fields)+

lemma on_finally_execs:
  "length (execs s) \<le> length (execs (on_finally p s))"
  "q < length (execs s) \<Longrightarrow> core (execs (on_finally p s) ! q) = core (execs s ! q)"
proof -
  show "length (execs s) \<le> length (execs (on_finally p s))"
    by (cases p s rule: on_finally_cases)
       (use runNext_execs(1)[of "set_stage p Finished s"] in \<open>simp_all add: set_stage_execs\<close>)
  show "core (execs (on_finally p s) ! q) = core (execs s ! q)" if "q < length (execs s)"
    using that
    by (cases p s rule: on_finally_cases)
       (use runNext_execs(2)[of q "set_stage p Finished s"] in \<open>simp_all add: set_stage_execs\<close>)
qed

lemma step_length: "length (execs s) \<le> length (execs (step e s))"
  by (cases e)
     (simp_all add: run_execs emit_close_execs emit_error_execs react_execs on_finally_execs
        abort_fields memoize_def)

lemma run_events_length: "length (execs s) \<le> length (execs (run_events evs s))"
proof (induction evs rule: rev_induct)
  case Nil
  then show ?case by (simp add: run_events_def)
next
  case (snoc e evs)
  then show ?case
    using step_length[of "run_events evs s" e] by (simp add: run_events_snoc)
qed

text \<open>What a single event can do to an execution that already exists.\<close>

lemma step_exec_cases:
  assumes "p < length (execs s)"
  obtains (same) "core (execs (step e s) ! p) = core (execs s ! p)"
  | (closed) code where "e = Close p code" "child_listening (execs s ! p)"
      "execs (step e s) ! p = finished_exec (close_outcome code) (execs s ! p)"
  | (failed) "e = Error p" "child_listening (execs s ! p)"
      "execs (step e s) ! p = finished_exec (Rejected SpawnError) (execs s ! p)"
  | (cancelled) t where "e = Abort t" "t \<notin> set (aborted s)" "exec_signal (execs s ! p) = Some t"
      "abort_listening (execs s ! p)"
      "execs (step e s) ! p = finished_exec (Rejected Aborted) (execs s ! p)"
proof (cases e)
  case (Run sg)
  with assms show ?thesis using same by (simp add: run_execs)
next
  case Memoize
  then show ?thesis using same by (simp add: memoize_def)
next
  case (Abort t)
  show ?thesis
  proof (cases "t \<notin> set (aborted s) \<and> exec_signal (execs s ! p) = Some t \<and>
                abort_listening (execs s ! p)")
    case True
    with assms Abort show ?thesis using cancelled[of t] by (simp add: abort_nth)
  next
    case False
    with assms have "execs (abort t s) ! p = execs s ! p" by (auto simp: abort_nth)
    with Abort show ?thesis using same by simp
  qed
next
  case (Close q code)
  show ?thesis
  proof (cases "q = p \<and> child_listening (execs s ! p)")
    case True
    with assms Close show ?thesis using closed[of code] by (simp add: emit_close_execs)
  next
    case False
    with assms have "execs (emit_close q code s) ! p = execs s ! p"
      by (auto simp: emit_close_execs)
    with Close show ?thesis using same by simp
  qed
next
  case (Error q)
  show ?thesis
  proof (cases "q = p \<and> child_listening (execs s ! p)")
    case True
    with assms Error show ?thesis using failed by (simp add: emit_error_execs)
  next
    case False
    with assms have "execs (emit_error q s) ! p = execs s ! p"
      by (auto simp: emit_error_execs)
    with Error show ?thesis using same by simp
  qed
next
  case (React q)
  with assms show ?thesis using same by (simp add: react_execs)
next
  case (Finally q)
  with assms show ?thesis using same by (simp add: on_finally_execs)
qed

lemma finished_exec_simps [simp]:
  "child_listening (finished_exec out e) = False"
  "abort_listening (finished_exec out e) = False"
  "kills (finished_exec out e) = Suc (kills e)"
  "settle_calls (finished_exec out e) = Suc (settle_calls e)"
  "settled (finished_exec out e) = first_settlement out (settled e)"
  "exec_signal (finished_exec out e) = exec_signal e"
  "handlers (finished_exec out e) = handlers e"
  by (simp_all add: finished_exec_def)

text \<open>Once the listeners are gone, nothing but the chain changes any more.\<close>

lemma frozen_step:
  assumes "execs_ok s" "p < length (execs s)" "\<not> child_listening (execs s ! p)"
  shows "core (execs (step e s) ! p) = core (execs s ! p)"
  using assms(2)
proof (cases rule: step_exec_cases[where e = e])
  case (cancelled t)
  with assms show ?thesis
    using exec_ok_listening[of "execs s ! p"] by (simp add: execs_ok_nth)
qed (use assms in simp_all)

lemma frozen_run_events:
  assumes "execs_ok s" "p < length (execs s)" "\<not> child_listening (execs s ! p)"
  shows "core (execs (run_events evs s) ! p) = core (execs s ! p)"
proof (induction evs rule: rev_induct)
  case Nil
  then show ?case by (simp add: run_events_def)
next
  case (snoc e evs)
  let ?s = "run_events evs s"
  have ok: "execs_ok ?s" using assms(1) by (rule execs_ok_run_events)
  have len: "p < length (execs ?s)" using assms(2) run_events_length[of s evs] by simp
  have nl: "\<not> child_listening (execs ?s ! p)"
    using core_eqD(2)[OF snoc.IH] assms(3) by simp
  show ?case
    using frozen_step[OF ok len nl, of e] snoc.IH by (simp add: run_events_snoc)
qed

lemma runNext_fields:
  "successfulList (runNext s) = successfulList s"
  "memoizeOn (runNext s) = memoizeOn s"
  "aborted (runNext s) = aborted s"
  "promises (runNext s) = promises s"
  "proc_id (runNext s) = proc_id s"
  "command (runNext s) = command s"
  by (cases s rule: runNext_cases; simp)+

lemma enqueue_fields:
  "successfulList (enqueue t s) = successfulList s"
  "memoizeOn (enqueue t s) = memoizeOn s"
  "aborted (enqueue t s) = aborted s"
  "execs (enqueue t s) = execs s"
  "childProcess (enqueue t s) = childProcess s"
  "proc_id (enqueue t s) = proc_id s"
  "command (enqueue t s) = command s"
  by (simp_all add: enqueue_def)

lemma run_fields:
  "successfulList (snd (run sg s)) = successfulList s"
  "memoizeOn (snd (run sg s)) = memoizeOn s"
  "aborted (snd (run sg s)) = aborted s"
  "proc_id (snd (run sg s)) = proc_id s"
  "command (snd (run sg s)) = command s"
  by (cases sg s rule: run_cases; simp add: runNext_fields enqueue_fields)+

lemma emit_fields:
  "successfulList (emit_close p code s) = successfulList s"
  "memoizeOn (emit_close p code s) = memoizeOn s"
  "aborted (emit_close p code s) = aborted s"
  "queue (emit_close p code s) = queue s"
  "promises (emit_close p code s) = promises s"
  "proc_id (emit_close p code s) = proc_id s"
  "command (emit_close p code s) = command s"
  "successfulList (emit_error p s) = successfulList s"
  "memoizeOn (emit_error p s) = memoizeOn s"
  "aborted (emit_error p s) = aborted s"
  "queue (emit_error p s) = queue s"
  "promises (emit_error p s) = promises s"
  "proc_id (emit_error p s) = proc_id s"
  "command (emit_error p s) = command s"
  by (simp_all add: emit_close_def emit_error_def onClose_eq onError_eq)

lemma react_fields:
  "memoizeOn (react p s) = memoizeOn s"
  "aborted (react p s) = aborted s"
  "childProcess (react p s) = childProcess s"
  "proc_id (react p s) = proc_id s"
  "command (react p s) = command s"
  by (cases p s rule: react_cases; simp add: set_stage_fields on_fulfilled_fields on_rejected_fields)+

lemma react_successfulList: "set (successfulList s) \<subseteq> set (successfulList (react p s))"
  by (cases p s rule: react_cases)
     (auto simp: set_stage_fields on_fulfilled_fields on_rejected_fields)

lemma on_finally_fields:
  "successfulList (on_finally p s) = successfulList s"
  "memoizeOn (on_finally p s) = memoizeOn s"
  "aborted (on_finally p s) = aborted s"
  "promises (on_finally p s) = promises s"
  "proc_id (on_finally p s) = proc_id s"
  "command (on_finally p s) = command s"
  by (cases p s rule: on_finally_cases; simp add: set_stage_fields runNext_fields)+

lemma step_memoizeOn: "memoizeOn (step e s) \<longleftrightarrow> memoizeOn s \<or> e = Memoize"
  by (cases e)
     (simp_all add: run_fields emit_fields react_fields on_finally_fields abort_fields memoize_def)

lemma step_successfulList: "set (successfulList s) \<subseteq> set (successfulList (step e s))"
  by (cases e)
     (simp_all add: run_fields emit_fields react_successfulList on_finally_fields abort_fields
        memoize_def)

lemma step_aborted: "set (aborted s) \<subseteq> set (aborted (step e s))"
  by (cases e)
     (auto simp: run_fields emit_fields react_fields on_finally_fields abort_fields memoize_def)

lemma step_identity: "proc_id (step e s) = proc_id s" "command (step e s) = command s"
  by (cases e; simp add: run_fields emit_fields react_fields on_finally_fields abort_fields
        memoize_def)+

lemma run_events_memoizeOn: "memoizeOn s \<Longrightarrow> memoizeOn (run_events evs s)"
  by (induction evs rule: rev_induct) (simp_all add: run_events_snoc step_memoizeOn, simp add: run_events_def)

lemma run_events_successfulList: "set (successfulList s) \<subseteq> set (successfulList (run_events evs s))"
proof (induction evs rule: rev_induct)
  case Nil
  then show ?case by (simp add: run_events_def)
next
  case (snoc e evs)
  then show ?case
    using step_successfulList[of "run_events evs s" e] by (auto simp: run_events_snoc)
qed

lemma run_events_aborted: "set (aborted s) \<subseteq> set (aborted (run_events evs s))"
proof (induction evs rule: rev_induct)
  case Nil
  then show ?case by (simp add: run_events_def)
next
  case (snoc e evs)
  then show ?case
    using step_aborted[of "run_events evs s" e] by (auto simp: run_events_snoc)
qed

lemma run_events_identity:
  "proc_id (run_events evs s) = proc_id s \<and> command (run_events evs s) = command s"
  by (induction evs rule: rev_induct) (simp_all add: run_events_snoc step_identity, simp add: run_events_def)

lemma qinv_enqueue:
  assumes "qinv q ps hs"
  shows "qinv (q @ [\<lparr>promise = length ps, signal = t\<rparr>]) (ps @ [None]) hs"
  using assms unfolding qinv_def
  by (auto simp: sorted_wrt_append nth_append less_Suc_eq) 

lemma qinv_shift:
  assumes "qinv (item # rest) ps hs"
  shows "qinv rest ps (hs @ [Some (item, Waiting)])"
  using assms unfolding qinv_def
  by (auto simp: nth_append less_Suc_eq)

lemma qinv_direct:
  assumes "qinv q ps hs"
  shows "qinv q ps (hs @ [None])"
  using assms unfolding qinv_def
  by (auto simp: nth_append less_Suc_eq)

lemma qinv_tail:
  assumes "qinv (item # rest) ps hs"
  shows "qinv rest ps hs"
  using assms unfolding qinv_def by auto

lemma upd_stage_nth:
  assumes "hs ! p = Some (it, st)" "pa < length hs" "hs[p := Some (it, st')] ! pa = Some (ita, sta)"
  obtains sta' where "hs ! pa = Some (ita, sta')" "pa \<noteq> p \<Longrightarrow> sta' = sta" "pa = p \<Longrightarrow> sta = st'"
  using assms by (cases "pa = p") auto

lemma qinv_stage:
  assumes "qinv q ps hs" "hs ! p = Some (it, st)" "st' \<noteq> Waiting"
  shows "qinv q ps (hs[p := Some (it, st')])"
  unfolding qinv_def
proof (intro conjI allI impI ballI)
  show "sorted_wrt (<) (map promise q)" using assms(1) by (simp add: qinv_def)
  show "promise e < length ps" "ps ! promise e = None" if "e \<in> set q" for e
    using assms(1) that by (simp_all add: qinv_def)
next
  fix pa ita sta
  assume pa: "pa < length (hs[p := Some (it, st')])"
    and h: "hs[p := Some (it, st')] ! pa = Some (ita, sta)"
  from pa have pa': "pa < length hs" by simp
  from upd_stage_nth[OF assms(2) pa' h] obtain sta' where
    o: "hs ! pa = Some (ita, sta')" "pa \<noteq> p \<Longrightarrow> sta' = sta" "pa = p \<Longrightarrow> sta = st'"
    by blast
  from assms(1) pa' o(1) have
    old: "promise ita < length ps" "sta' = Waiting \<longrightarrow> ps ! promise ita = None"
      "\<forall>it' \<in> set q. promise ita < promise it'"
      "\<forall>p' < pa. \<forall>it' st''. hs ! p' = Some (it', st'') \<longrightarrow> promise it' < promise ita"
    unfolding qinv_def by blast+
  show "promise ita < length ps" by (rule old(1))
  show "ps ! promise ita = None" if "sta = Waiting"
    using that o old(2) assms(3) by (cases "pa = p") auto
  show "promise ita < promise it'" if "it' \<in> set q" for it'
    using that old(3) by blast
  show "promise it' < promise ita" if "p' < pa" "hs[p := Some (it, st')] ! p' = Some (it', st'')"
    for p' it' st''
  proof -
    from that(1) pa' have "p' < length hs" by simp
    from upd_stage_nth[OF assms(2) this that(2)] obtain x where "hs ! p' = Some (it', x)"
      by blast
    with old(4) that(1) show ?thesis by blast
  qed
qed

lemma sorted_promise_inj:
  assumes "sorted_wrt (<) (map promise q)" "e \<in> set q" "e' \<in> set q" "promise e = promise e'"
  shows "e = e'"
proof -
  have "distinct (map promise q)" using assms(1) strict_sorted_iff by blast
  then have "inj_on promise (set q)" by (simp add: distinct_map)
  with assms(2-4) show ?thesis by (auto dest: inj_onD)
qed

lemma qinv_settle:
  assumes inv: "qinv q ps hs" and p: "p < length hs" and h: "hs ! p = Some (item, Waiting)"
    and len: "length ps' = length ps"
    and same: "\<And>r. r < length ps \<Longrightarrow> r \<noteq> promise item \<Longrightarrow>
                 (\<And>e. e \<in> set q \<Longrightarrow> \<not> P e \<Longrightarrow> promise e \<noteq> r) \<Longrightarrow> ps' ! r = ps ! r"
  shows "qinv (filter P q) ps' (hs[p := Some (item, Reacted)])"
  unfolding qinv_def
proof (intro conjI allI impI ballI)
  from inv have srt: "sorted_wrt (<) (map promise q)" by (simp add: qinv_def)
  from inv p h have item_lt: "\<forall>it' \<in> set q. promise item < promise it'"
    unfolding qinv_def by blast
  have "sorted_wrt (\<lambda>a b. promise a < promise b) (filter P q)"
    using srt by (simp add: sorted_wrt_map sorted_wrt_filter)
  then show "sorted_wrt (<) (map promise (filter P q))" by (simp add: sorted_wrt_map)
  {
    fix e assume e: "e \<in> set (filter P q)"
    then have eq: "e \<in> set q" and Pe: "P e" by auto
    from inv eq have b: "promise e < length ps" "ps ! promise e = None" by (simp_all add: qinv_def)
    show "promise e < length ps'" using b len by simp
    have "ps' ! promise e = ps ! promise e"
    proof (rule same[OF b(1)])
      show "promise e \<noteq> promise item" using item_lt eq by auto
      show "promise e' \<noteq> promise e" if "e' \<in> set q" "\<not> P e'" for e'
        using sorted_promise_inj[OF srt that(1) eq] that(2) Pe by auto
    qed
    then show "ps' ! promise e = None" using b by simp
  }
  fix pa ita sta
  assume pa: "pa < length (hs[p := Some (item, Reacted)])"
    and hh: "hs[p := Some (item, Reacted)] ! pa = Some (ita, sta)"
  from pa have pa': "pa < length hs" by simp
  from upd_stage_nth[OF h pa' hh] obtain sta' where
    o: "hs ! pa = Some (ita, sta')" "pa \<noteq> p \<Longrightarrow> sta' = sta" "pa = p \<Longrightarrow> sta = Reacted"
    by blast
  from inv pa' o(1) have
    old: "promise ita < length ps" "sta' = Waiting \<longrightarrow> ps ! promise ita = None"
      "\<forall>it' \<in> set q. promise ita < promise it'"
      "\<forall>p' < pa. \<forall>it' st''. hs ! p' = Some (it', st'') \<longrightarrow> promise it' < promise ita"
    unfolding qinv_def by blast+
  show "promise ita < length ps'" using old(1) len by simp
  show "promise ita < promise it'" if "it' \<in> set (filter P q)" for it'
    using that old(3) by auto
  show "promise it' < promise ita"
    if "p' < pa" "hs[p := Some (item, Reacted)] ! p' = Some (it', st'')" for p' it' st''
  proof -
    from that(1) pa' have "p' < length hs" by simp
    from upd_stage_nth[OF h this that(2)] obtain x where "hs ! p' = Some (it', x)"
      by blast
    with old(4) that(1) show ?thesis by blast
  qed
  show "ps' ! promise ita = None" if w: "sta = Waiting"
  proof -
    from w o have ne: "pa \<noteq> p" and w': "sta' = Waiting" by auto
    have "promise ita \<noteq> promise item"
    proof (cases "pa < p")
      case True
      from inv p h have "\<forall>p' < p. \<forall>it' st'. hs ! p' = Some (it', st') \<longrightarrow> promise it' < promise item"
        unfolding qinv_def by blast
      with True o(1) show ?thesis by fastforce
    next
      case False
      with ne have "p < pa" by simp
      with old(4) h show ?thesis by fastforce
    qed
    moreover have "promise e \<noteq> promise ita" if "e \<in> set q" for e
      using old(3) that by fastforce
    ultimately have "ps' ! promise ita = ps ! promise ita"
      using same[OF old(1)] by blast
    with old(2) w' show ?thesis by simp
  qed
qed

lemma qinv_rejected:
  assumes "qinv q ps hs" "p < length hs" "hs ! p = Some (item, Waiting)"
  shows "qinv q (settle_promise (promise item) out ps) (hs[p := Some (item, Reacted)])"
proof -
  have "qinv (filter (\<lambda>_. True) q) (settle_promise (promise item) out ps)
          (hs[p := Some (item, Reacted)])"
    by (rule qinv_settle[OF assms]) (simp_all add: settle_promise_def)
  then show ?thesis by simp
qed

lemma qinv_fulfilled:
  assumes "qinv q ps hs" "p < length hs" "hs ! p = Some (item, Waiting)"
  shows "qinv (filter (\<lambda>e. signal e \<noteq> signal item) q)
           (snd (filter_resolve (signal item) q (settle_promise (promise item) Resolved ps)))
           (hs[p := Some (item, Reacted)])"
proof (rule qinv_settle[OF assms])
  show "length (snd (filter_resolve (signal item) q (settle_promise (promise item) Resolved ps)))
        = length ps"
    by (simp add: filter_resolve_length settle_promise_def)
next
  fix r
  assume r: "r < length ps" "r \<noteq> promise item"
    and d: "\<And>e. e \<in> set q \<Longrightarrow> \<not> signal e \<noteq> signal item \<Longrightarrow> promise e \<noteq> r"
  have "r < length (settle_promise (promise item) Resolved ps)"
    using r by (simp add: settle_promise_def)
  from filter_resolve_nth[OF this, of "signal item" q] d r
  show "snd (filter_resolve (signal item) q (settle_promise (promise item) Resolved ps)) ! r
        = ps ! r"
    by (auto simp: settle_promise_def)
qed

lemma set_stage_handlers:
  assumes "handlers (execs s ! p) = Some (item, st)"
  shows "map handlers (execs (set_stage p st' s)) = (map handlers (execs s))[p := Some (item, st')]"
  using assms by (simp add: set_stage_def map_update)

lemma queue_inv_runNext: "queue_inv s \<Longrightarrow> queue_inv (runNext s)"
proof (cases s rule: runNext_cases)
  case idle
  assume "queue_inv s"
  with idle show ?thesis by simp
next
  case (spawn item rest)
  assume "queue_inv s"
  with spawn show ?thesis
    using qinv_shift[of item rest "promises s" "map handlers (execs s)"]
    by (simp add: queue_inv_def drained_exec_def)
next
  case (drop item rest)
  assume "queue_inv s"
  with drop show ?thesis
    using qinv_tail[of item rest "promises s" "map handlers (execs s)"]
    by (simp add: queue_inv_def)
qed

lemma queue_inv_run: "queue_inv s \<Longrightarrow> queue_inv (snd (run sg s))"
proof (cases sg s rule: run_cases)
  case (queued t)
  assume "queue_inv s"
  then have "queue_inv (enqueue t s)"
    using qinv_enqueue[of "queue s" "promises s" "map handlers (execs s)" t]
    by (simp add: queue_inv_def enqueue_def)
  with queued show ?thesis by (simp add: queue_inv_runNext)
next
  case direct
  assume "queue_inv s"
  with direct show ?thesis
    using qinv_direct[of "queue s" "promises s" "map handlers (execs s)"]
    by (simp add: queue_inv_def new_exec_def)
qed simp_all

lemma handlers_unchanged:
  assumes "length (execs s') = length (execs s)"
    and "\<And>q. q < length (execs s) \<Longrightarrow> handlers (execs s' ! q) = handlers (execs s ! q)"
  shows "map handlers (execs s') = map handlers (execs s)"
  using assms by (auto intro: nth_equalityI)

lemma emit_close_handlers: "map handlers (execs (emit_close p code s)) = map handlers (execs s)"
  by (rule handlers_unchanged) (simp_all add: emit_close_execs)

lemma emit_error_handlers: "map handlers (execs (emit_error p s)) = map handlers (execs s)"
  by (rule handlers_unchanged) (simp_all add: emit_error_execs)

lemma abort_handlers: "map handlers (execs (abort t s)) = map handlers (execs s)"
  by (rule handlers_unchanged) (simp_all add: abort_fields abort_nth)

lemma queue_inv_react: "queue_inv s \<Longrightarrow> queue_inv (react p s)"
proof (cases p s rule: react_cases)
  case skip
  assume "queue_inv s"
  with skip show ?thesis by simp
next
  case (fulfilled item)
  assume "queue_inv s"
  then have "qinv (queue s) (promises s) (map handlers (execs s))" by (simp add: queue_inv_def)
  from qinv_fulfilled[OF this, of p item] fulfilled(1,2)
  have "qinv (queue (on_fulfilled item s)) (promises (on_fulfilled item s))
          ((map handlers (execs (on_fulfilled item s)))[p := Some (item, Reacted)])"
    by (simp add: on_fulfilled_fields)
  moreover have "handlers (execs (on_fulfilled item s) ! p) = Some (item, Waiting)"
    using fulfilled(2) by (simp add: on_fulfilled_fields)
  ultimately show ?thesis
    using fulfilled(4) by (simp add: queue_inv_def set_stage_handlers set_stage_fields)
next
  case (rejected item e)
  assume "queue_inv s"
  then have "qinv (queue s) (promises s) (map handlers (execs s))" by (simp add: queue_inv_def)
  from qinv_rejected[OF this, of p item "Rejected e"] rejected(1,2)
  have "qinv (queue (on_rejected item e s)) (promises (on_rejected item e s))
          ((map handlers (execs (on_rejected item e s)))[p := Some (item, Reacted)])"
    by (simp add: on_rejected_fields)
  moreover have "handlers (execs (on_rejected item e s) ! p) = Some (item, Waiting)"
    using rejected(2) by (simp add: on_rejected_fields)
  ultimately show ?thesis
    using rejected(4) by (simp add: queue_inv_def set_stage_handlers set_stage_fields)
qed

lemma queue_inv_finally: "queue_inv s \<Longrightarrow> queue_inv (on_finally p s)"
proof (cases p s rule: on_finally_cases)
  case skip
  assume "queue_inv s"
  with skip show ?thesis by simp
next
  case (drain item)
  assume "queue_inv s"
  then have "qinv (queue s) (promises s) (map handlers (execs s))" by (simp add: queue_inv_def)
  from qinv_stage[OF this, of p item Reacted Finished] drain(1,2)
  have "queue_inv (set_stage p Finished s)"
    by (simp add: queue_inv_def set_stage_handlers set_stage_fields)
  with drain(3) show ?thesis by (simp add: queue_inv_runNext)
qed

lemma queue_inv_step: "queue_inv s \<Longrightarrow> queue_inv (step e s)"
proof (cases e)
  case Memoize
  assume "queue_inv s"
  with Memoize show ?thesis by (simp add: queue_inv_def memoize_def)
qed (simp_all add: queue_inv_run queue_inv_react queue_inv_finally,
     simp_all add: queue_inv_def emit_close_handlers emit_error_handlers abort_handlers
       emit_fields abort_fields)

lemma queue_inv_run_events: "queue_inv s \<Longrightarrow> queue_inv (run_events evs s)"
  by (induction evs rule: rev_induct)
     (simp_all add: run_events_snoc queue_inv_step, simp add: run_events_def)

lemma queue_inv_reachable: "queue_inv (run_events evs (init i c))"
  by (rule queue_inv_run_events) (simp add: queue_inv_def qinv_def init_def)

lemma no_direct_nth: "no_direct s \<longleftrightarrow> (\<forall>p < length (execs s). handlers (execs s ! p) \<noteq> None)"
  by (simp add: no_direct_def list_all_length)

lemma serial_runNext: "serial s \<Longrightarrow> serial (runNext s)"
proof (cases s rule: runNext_cases)
  case (spawn item rest)
  assume "serial s"
  with spawn(1) have "\<not> in_flight s p" for p by (auto simp: serial_def)
  with spawn(4) show ?thesis
    by (auto simp: serial_def in_flight_def nth_append less_Suc_eq)
qed (auto simp: serial_def in_flight_def)

lemma serial_finish:
  assumes "serial s" "in_flight s p"
  shows "serial (s\<lparr>childProcess := None,
                   execs := (execs s)[p := finished_exec out (execs s ! p)]\<rparr>)"
proof -
  have only: "q = p" if "in_flight s q" for q
    using assms that by (metis option.inject serial_def)
  have "\<not> in_flight (s\<lparr>childProcess := None,
                   execs := (execs s)[p := finished_exec out (execs s ! p)]\<rparr>) q" for q
  proof (cases "q = p")
    case True
    then show ?thesis by (simp add: in_flight_def)
  next
    case False
    with only[of q] show ?thesis by (auto simp: in_flight_def)
  qed
  then show ?thesis by (simp add: serial_def)
qed

lemma serial_close: "serial s \<Longrightarrow> serial (emit_close p code s)"
  using serial_finish[of s p] by (auto simp: emit_close_def onClose_eq in_flight_def)

lemma serial_uncaught [simp]: "serial (s\<lparr>uncaught := n\<rparr>) = serial s"
  by (simp add: serial_def in_flight_def)

lemma serial_error: "serial s \<Longrightarrow> serial (emit_error p s)"
  using serial_finish[of s p] by (auto simp: emit_error_def onError_eq in_flight_def)

lemma serial_abort:
  assumes "execs_ok s" "serial s"
  shows "serial (abort t s)"
proof (cases "t \<in> set (aborted s) \<or> abort_listeners t s = []")
  case True
  have "execs (abort t s) ! q = execs s ! q" if "q < length (execs s)" for q
  proof (cases "t \<in> set (aborted s)")
    case True
    then show ?thesis by (simp add: abort_again)
  next
    case False
    with True have "q \<notin> set (abort_listeners t s)" by simp
    with that show ?thesis by (auto simp: abort_nth abort_listeners_set)
  qed
  with True assms(2) show ?thesis
    by (auto simp: serial_def in_flight_def abort_fields abort_childProcess)
next
  case False
  then obtain p where p: "p \<in> set (abort_listeners t s)" and na: "t \<notin> set (aborted s)"
    by (cases "abort_listeners t s") auto
  then have pl: "p < length (execs s)" "exec_signal (execs s ! p) = Some t"
    "abort_listening (execs s ! p)"
    by (simp_all add: abort_listeners_set)
  with assms(1) have "child_listening (execs s ! p)"
    using exec_ok_listening by (simp add: execs_ok_nth)
  with pl have fp: "in_flight s p" by (simp add: in_flight_def)
  have "\<not> in_flight (abort t s) q" for q
  proof
    assume q: "in_flight (abort t s) q"
    then have ql: "q < length (execs s)" by (simp add: in_flight_def abort_fields)
    with q have "in_flight s q"
      by (auto simp: in_flight_def abort_fields abort_nth split: if_splits)
    with fp assms(2) have "q = p" by (metis option.inject serial_def)
    with q pl na show False by (simp add: in_flight_def abort_fields abort_nth)
  qed
  then show ?thesis by (simp add: serial_def)
qed

lemma serial_core:
  assumes "serial s" "childProcess s' = childProcess s" "length (execs s') = length (execs s)"
    and "\<And>q. q < length (execs s) \<Longrightarrow> core (execs s' ! q) = core (execs s ! q)"
  shows "serial s'"
proof -
  have "in_flight s q" if "in_flight s' q" for q
    using that assms(3) core_eqD(2)[OF assms(4)[of q]] by (simp add: in_flight_def)
  with assms(1-3) show ?thesis by (auto simp: serial_def)
qed

lemma serial_react: "serial s \<Longrightarrow> serial (react p s)"
  by (erule serial_core) (simp_all add: react_fields react_execs)

lemma serial_set_stage: "serial s \<Longrightarrow> serial (set_stage p st s)"
  by (erule serial_core) (simp_all add: set_stage_fields set_stage_execs)

lemma serial_finally: "serial s \<Longrightarrow> serial (on_finally p s)"
  by (cases p s rule: on_finally_cases) (simp_all add: serial_set_stage serial_runNext)

lemma serial_enqueue: "serial s \<Longrightarrow> serial (enqueue t s)"
  by (erule serial_core) (simp_all add: enqueue_fields)

lemma handlers_none_step:
  assumes "p < length (execs s)"
  shows "handlers (execs (step e s) ! p) = None \<longleftrightarrow> handlers (execs s ! p) = None"
proof (cases e)
  case (Run sg)
  with assms show ?thesis by (simp add: run_execs)
next
  case Memoize
  then show ?thesis by (simp add: memoize_def)
next
  case (Abort t)
  with assms show ?thesis by (simp add: abort_nth)
next
  case (Close q code)
  with assms show ?thesis by (simp add: emit_close_execs)
next
  case (Error q)
  with assms show ?thesis by (simp add: emit_error_execs)
next
  case (React q)
  with assms show ?thesis
    by (cases q s rule: react_cases)
       (simp_all add: set_stage_execs on_fulfilled_fields on_rejected_fields)
next
  case (Finally q)
  with assms show ?thesis
    by (cases q s rule: on_finally_cases)
       (simp_all add: set_stage_execs runNext_execs)
qed

lemma no_direct_step: "no_direct (step e s) \<Longrightarrow> no_direct s"
  unfolding no_direct_nth
  using handlers_none_step[of _ s e] step_length[of s e]
  by (metis less_le_trans)

lemma serial_step:
  assumes "execs_ok s" "serial s" "no_direct (step e s)"
  shows "serial (step e s)"
proof (cases e)
  case (Run sg)
  show ?thesis
  proof (cases sg s rule: run_cases)
    case (queued t)
    with Run assms(2) show ?thesis by (simp add: serial_runNext serial_enqueue)
  next
    case direct
    with Run assms(3) show ?thesis by (simp add: no_direct_def new_exec_def)
  qed (use Run assms(2) in simp_all)
next
  case Memoize
  with assms(2) show ?thesis by (simp add: memoize_def serial_def in_flight_def)
qed (use assms in \<open>simp_all add: serial_close serial_error serial_abort serial_react serial_finally\<close>)

lemma serial_run_events:
  "no_direct (run_events evs (init i c)) \<Longrightarrow> serial (run_events evs (init i c))"
proof (induction evs rule: rev_induct)
  case Nil
  then show ?case by (simp add: run_events_def serial_def in_flight_def init_def)
next
  case (snoc e evs)
  let ?s = "run_events evs (init i c)"
  from snoc.prems have nd: "no_direct (step e ?s)" by (simp add: run_events_snoc)
  then have "serial ?s" using snoc.IH no_direct_step by blast
  with nd show ?case
    using serial_step[OF execs_ok_reachable] by (simp add: run_events_snoc)
qed

lemma queue_inv_queue:
  assumes "queue_inv s" "e \<in> set (queue s)"
  shows "promise e < length (promises s)" "promises s ! promise e = None"
  using assms by (simp_all add: queue_inv_def qinv_def)

lemma queue_inv_waiting:
  assumes "queue_inv s" "p < length (execs s)" "handlers (execs s ! p) = Some (item, Waiting)"
  shows "promise item < length (promises s)" "promises s ! promise item = None"
  using assms unfolding queue_inv_def qinv_def by force+

lemma react_fulfilled_effect:
  assumes inv: "queue_inv s" and p: "p < length (execs s)"
    and h: "handlers (execs s ! p) = Some (item, Waiting)"
    and r: "settled (execs s ! p) = Some Resolved"
  shows "successfulList (react p s) = successfulList s @ [signal item]"
    and "promises (react p s) ! promise item = Some Resolved"
    and "queue (react p s) = filter (\<lambda>e. signal e \<noteq> signal item) (queue s)"
    and "\<forall>e \<in> set (queue s). signal e = signal item \<longrightarrow>
           promises (react p s) ! promise e = Some Resolved \<and> e \<notin> set (queue (react p s))"
    and "\<forall>e \<in> set (queue s). signal e \<noteq> signal item \<longrightarrow>
           e \<in> set (queue (react p s)) \<and> promises (react p s) ! promise e = None"
    and "length (execs (react p s)) = length (execs s)"
    and "childProcess (react p s) = childProcess s"
proof -
  have eq: "react p s = set_stage p Reacted (on_fulfilled item s)"
    using p h r by (simp add: react_def)
  let ?ps = "settle_promise (promise item) Resolved (promises s)"
  have ps: "promises (react p s) = snd (filter_resolve (signal item) (queue s) ?ps)"
    by (simp add: eq set_stage_fields on_fulfilled_fields)
  have len: "length ?ps = length (promises s)" by (simp add: settle_promise_def)
  note pend = queue_inv_waiting[OF inv p h]
  show "successfulList (react p s) = successfulList s @ [signal item]"
    by (simp add: eq set_stage_fields on_fulfilled_fields)
  show q: "queue (react p s) = filter (\<lambda>e. signal e \<noteq> signal item) (queue s)"
    by (simp add: eq set_stage_fields on_fulfilled_fields)
  show "length (execs (react p s)) = length (execs s)" by (simp add: react_execs)
  show "childProcess (react p s) = childProcess s" by (simp add: react_fields)
  have own: "?ps ! promise item = Some Resolved"
    using pend by (simp add: settle_promise_def first_settlement_def)
  show "promises (react p s) ! promise item = Some Resolved"
    using filter_resolve_nth[of "promise item" ?ps "signal item" "queue s"] pend(1) own
    by (simp add: ps len first_settlement_def)
  show "\<forall>e \<in> set (queue s). signal e = signal item \<longrightarrow>
           promises (react p s) ! promise e = Some Resolved \<and> e \<notin> set (queue (react p s))"
  proof (intro ballI impI)
    fix e assume e: "e \<in> set (queue s)" "signal e = signal item"
    note pe = queue_inv_queue[OF inv e(1)]
    have "?ps ! promise e = None \<or> ?ps ! promise e = Some Resolved"
      using pe pend
      by (cases "promise e = promise item") (simp_all add: settle_promise_def first_settlement_def)
    then have "first_settlement Resolved (?ps ! promise e) = Some Resolved"
      by (auto simp: first_settlement_def)
    moreover have "snd (filter_resolve (signal item) (queue s) ?ps) ! promise e
                   = first_settlement Resolved (?ps ! promise e)"
      using filter_resolve_nth[of "promise e" ?ps "signal item" "queue s"] pe(1) e
      by (auto simp: len)
    ultimately show "promises (react p s) ! promise e = Some Resolved \<and>
                     e \<notin> set (queue (react p s))"
      using e by (simp add: ps q)
  qed
  have inv': "queue_inv (react p s)" using inv by (rule queue_inv_react)
  show "\<forall>e \<in> set (queue s). signal e \<noteq> signal item \<longrightarrow>
           e \<in> set (queue (react p s)) \<and> promises (react p s) ! promise e = None"
  proof (intro ballI impI)
    fix e assume e: "e \<in> set (queue s)" "signal e \<noteq> signal item"
    then have "e \<in> set (queue (react p s))" by (simp add: q)
    with queue_inv_queue(2)[OF inv'] show "e \<in> set (queue (react p s)) \<and>
        promises (react p s) ! promise e = None" by simp
  qed
qed

lemma react_rejected_effect:
  assumes inv: "queue_inv s" and p: "p < length (execs s)"
    and h: "handlers (execs s ! p) = Some (item, Waiting)"
    and r: "settled (execs s ! p) = Some (Rejected err)"
  shows "successfulList (react p s) = successfulList s"
    and "promises (react p s) ! promise item = Some (Rejected err)"
    and "queue (react p s) = queue s"
    and "\<forall>r. r \<noteq> promise item \<longrightarrow> promises (react p s) ! r = promises s ! r"
    and "\<forall>e \<in> set (queue s). promises (react p s) ! promise e = None"
    and "length (execs (react p s)) = length (execs s)"
    and "childProcess (react p s) = childProcess s"
    and "memoizeOn (react p s) = memoizeOn s"
    and "aborted (react p s) = aborted s"
proof -
  have eq: "react p s = set_stage p Reacted (on_rejected item err s)"
    using p h r by (simp add: react_def)
  note pend = queue_inv_waiting[OF inv p h]
  have ps: "promises (react p s) = settle_promise (promise item) (Rejected err) (promises s)"
    by (simp add: eq set_stage_fields on_rejected_fields)
  show "successfulList (react p s) = successfulList s"
    by (simp add: eq set_stage_fields on_rejected_fields)
  show q: "queue (react p s) = queue s"
    by (simp add: eq set_stage_fields on_rejected_fields)
  show "length (execs (react p s)) = length (execs s)" by (simp add: react_execs)
  show "childProcess (react p s) = childProcess s" by (simp add: react_fields)
  show "memoizeOn (react p s) = memoizeOn s" by (simp add: react_fields)
  show "aborted (react p s) = aborted s" by (simp add: react_fields)
  show "promises (react p s) ! promise item = Some (Rejected err)"
    using pend by (simp add: ps settle_promise_def first_settlement_def)
  show "\<forall>r. r \<noteq> promise item \<longrightarrow> promises (react p s) ! r = promises s ! r"
    by (simp add: ps settle_promise_def)
  have inv': "queue_inv (react p s)" using inv by (rule queue_inv_react)
  show "\<forall>e \<in> set (queue s). promises (react p s) ! promise e = None"
    using queue_inv_queue(2)[OF inv'] by (simp add: q)
qed

lemma run_queued_idle:
  assumes "memoizeOn w" "childProcess w = None" "queue w = []"
    "T \<notin> set (aborted w)" "T \<notin> set (successfulList w)"
  shows "run (Some T) w =
     (Queued (length (promises w)),
      w\<lparr>childProcess := Some (length (execs w)), queue := [],
        execs := execs w @ [drained_exec \<lparr>promise = length (promises w), signal = T\<rparr>],
        promises := promises w @ [None]\<rparr>)"
  using assms
  by (simp add: run_def signal_aborted_def already_succeeded_def enqueue_def runNext_def
        exec_def attach_def drained_exec_def)

lemma run_queued_busy:
  assumes "memoizeOn w" "childProcess w \<noteq> None"
    "T \<notin> set (aborted w)" "T \<notin> set (successfulList w)"
  shows "run (Some T) w =
     (Queued (length (promises w)),
      w\<lparr>queue := queue w @ [\<lparr>promise = length (promises w), signal = T\<rparr>],
        promises := promises w @ [None]\<rparr>)"
  using assms
  by (simp add: run_def signal_aborted_def already_succeeded_def enqueue_def runNext_def)

lemma two_concurrent_runs:
  assumes idle: "memoizeOn w" "childProcess w = None" "queue w = []"
    and T: "T \<notin> set (aborted w)" "T \<notin> set (successfulList w)"
    and w1: "w1 = snd (run (Some T) w)" and w2: "w2 = snd (run (Some T) w1)"
    and w3: "w3 = emit_close (length (execs w)) (Some 0) w2"
    and w4: "w4 = react (length (execs w)) w3"
    and w5: "w5 = on_finally (length (execs w)) w4"
  shows "fst (run (Some T) w) = Queued (length (promises w))"
    and "fst (run (Some T) w1) = Queued (Suc (length (promises w)))"
    and "length (execs w2) = Suc (length (execs w))"
    and "in_flight w2 (length (execs w))"
    and "result_of w2 (Queued (length (promises w))) = None"
    and "result_of w2 (Queued (Suc (length (promises w)))) = None"
    and "result_of w4 (Queued (length (promises w))) = Some Resolved"
    and "result_of w4 (Queued (Suc (length (promises w)))) = Some Resolved"
    and "T \<in> set (successfulList w4)"
    and "queue w5 = []"
    and "length (execs w5) = Suc (length (execs w))"
proof -
  let ?n = "length (promises w)" and ?p = "length (execs w)"
  let ?i1 = "\<lparr>promise = ?n, signal = T\<rparr>" and ?i2 = "\<lparr>promise = Suc ?n, signal = T\<rparr>"
  have r1: "run (Some T) w = (Queued ?n,
      w\<lparr>childProcess := Some ?p, queue := [], execs := execs w @ [drained_exec ?i1],
        promises := promises w @ [None]\<rparr>)"
    using idle T by (rule run_queued_idle)
  then have e1: "w1 = w\<lparr>childProcess := Some ?p, queue := [],
        execs := execs w @ [drained_exec ?i1], promises := promises w @ [None]\<rparr>"
    by (simp add: w1)
  have r2: "run (Some T) w1 = (Queued (Suc ?n),
      w1\<lparr>queue := queue w1 @ [?i2], promises := promises w1 @ [None]\<rparr>)"
    using run_queued_busy[of w1 T] idle T by (simp add: e1)
  then have e2: "w2 = w\<lparr>childProcess := Some ?p, queue := [?i2],
        execs := execs w @ [drained_exec ?i1], promises := promises w @ [None, None]\<rparr>"
    by (simp add: w2 e1)
  have e3: "w3 = w\<lparr>childProcess := None, queue := [?i2],
        execs := execs w @ [finished_exec Resolved (drained_exec ?i1)],
        promises := promises w @ [None, None]\<rparr>"
    by (simp add: w3 e2 emit_close_def onClose_eq close_outcome_def drained_exec_def new_exec_def)
  have h3: "handlers (execs w3 ! ?p) = Some (?i1, Waiting)"
    "settled (execs w3 ! ?p) = Some Resolved"
    by (simp_all add: e3 drained_exec_def new_exec_def first_settlement_def)
  have rr: "w4 = set_stage ?p Reacted (on_fulfilled ?i1 w3)"
    using h3 by (simp add: w4 react_def e3)
  have f: "filter_resolve T [?i2] ps = ([], settle_promise (Suc ?n) Resolved ps)" for ps
    by simp
  have p4: "promises w4 = promises w @ [Some Resolved, Some Resolved]"
    by (simp add: rr set_stage_fields on_fulfilled_def e3 f settle_promise_def
          first_settlement_def list_update_append nth_append)
  have q4: "queue w4 = []" "successfulList w4 = successfulList w @ [T]" "childProcess w4 = None"
    by (simp_all add: rr set_stage_fields on_fulfilled_fields e3)
  have x4: "execs w4 = execs w @ [(finished_exec Resolved (drained_exec ?i1))
                \<lparr>handlers := Some (?i1, Reacted)\<rparr>]"
    by (simp add: rr set_stage_def on_fulfilled_def e3 f drained_exec_def)
  show "fst (run (Some T) w) = Queued ?n" by (simp add: r1)
  show "fst (run (Some T) w1) = Queued (Suc ?n)" by (simp add: r2)
  show "length (execs w2) = Suc ?p" by (simp add: e2)
  show "in_flight w2 ?p" by (simp add: e2 in_flight_def drained_exec_def new_exec_def)
  show "result_of w2 (Queued ?n) = None" by (simp add: e2 result_of_def nth_append)
  show "result_of w2 (Queued (Suc ?n)) = None" by (simp add: e2 result_of_def nth_append)
  show "result_of w4 (Queued ?n) = Some Resolved" by (simp add: p4 result_of_def nth_append)
  show "result_of w4 (Queued (Suc ?n)) = Some Resolved"
    by (simp add: p4 result_of_def nth_append)
  show "T \<in> set (successfulList w4)" by (simp add: q4)
  have "on_finally ?p w4 = runNext (set_stage ?p Finished w4)"
    by (simp add: on_finally_def x4)
  then have e5: "w5 = set_stage ?p Finished w4"
    by (simp add: w5 runNext_idle set_stage_fields q4)
  show "queue w5 = []" by (simp add: e5 set_stage_fields q4)
  show "length (execs w5) = Suc ?p" by (simp add: e5 set_stage_execs x4)
qed



text \<open>How an execution that already exists can come to be settled by one event.\<close>

lemma settled_step:
  assumes ok: "execs_ok s" and p: "p < length (execs s)"
    and st: "settled (execs (step e s) ! p) = Some out"
  shows "settled (execs s ! p) = Some out
       \<or> in_flight s p \<and> settled (execs s ! p) = None \<and>
         ((\<exists>code. e = Close p code \<and> out = close_outcome code)
          \<or> e = Error p \<and> out = Rejected SpawnError
          \<or> (\<exists>t. e = Abort t \<and> t \<notin> set (aborted s) \<and> exec_signal (execs s ! p) = Some t \<and>
                  out = Rejected Aborted))"
proof -
  from ok p have e: "exec_ok (execs s ! p)" by (simp add: execs_ok_nth)
  have none: "settled (execs s ! p) = None" if "child_listening (execs s ! p)"
    using e that by (simp add: exec_ok_def)
  from p show ?thesis
  proof (cases rule: step_exec_cases[where e = e])
    case same
    with st show ?thesis using core_eqD(6)[OF same] by simp
  next
    case (closed code)
    with st none p show ?thesis by (simp add: first_settlement_def in_flight_def)
  next
    case failed
    with st none p show ?thesis by (simp add: first_settlement_def in_flight_def)
  next
    case (cancelled t)
    then have "child_listening (execs s ! p)" using exec_ok_listening[OF e] by simp
    with cancelled st none p show ?thesis by (simp add: first_settlement_def in_flight_def)
  qed
qed

lemma exec_signal_step:
  assumes "p < length (execs s)"
  shows "exec_signal (execs (step e s) ! p) = exec_signal (execs s ! p)"
  using assms
proof (cases rule: step_exec_cases[where e = e])
  case same
  then show ?thesis using core_eqD(1) by blast
qed simp_all

lemma exec_signal_run_events:
  assumes "p < length (execs s)"
  shows "exec_signal (execs (run_events evs s) ! p) = exec_signal (execs s ! p)"
proof (induction evs rule: rev_induct)
  case Nil
  then show ?case by (simp add: run_events_def)
next
  case (snoc e evs)
  have "p < length (execs (run_events evs s))"
    using assms run_events_length[of s evs] by simp
  from exec_signal_step[OF this, of e] snoc show ?case by (simp add: run_events_snoc)
qed

text \<open>An execution whose token had already fired when it started never fails with
  \<open>Aborted\<close>: its abort listener cannot be called.\<close>

lemma never_aborted:
  assumes ok: "execs_ok s" and p: "p < length (execs s)"
    and sg: "exec_signal (execs s ! p) = Some t" and ab: "t \<in> set (aborted s)"
    and un: "settled (execs s ! p) \<noteq> Some (Rejected Aborted)"
  shows "settled (execs (run_events evs s) ! p) \<noteq> Some (Rejected Aborted)"
proof (induction evs rule: rev_induct)
  case Nil
  then show ?case using un by (simp add: run_events_def)
next
  case (snoc e evs)
  let ?s = "run_events evs s"
  have ok': "execs_ok ?s" using ok by (rule execs_ok_run_events)
  have p': "p < length (execs ?s)" using p run_events_length[of s evs] by simp
  have sg': "exec_signal (execs ?s ! p) = Some t" using exec_signal_run_events[OF p] sg by simp
  have ab': "t \<in> set (aborted ?s)" using ab run_events_aborted by blast
  show ?case
  proof
    assume "settled (execs (run_events (evs @ [e]) s) ! p) = Some (Rejected Aborted)"
    then have "settled (execs (step e ?s) ! p) = Some (Rejected Aborted)"
      by (simp add: run_events_snoc)
    from settled_step[OF ok' p' this] snoc sg' ab' show False
      by (auto simp: close_outcome_def split: if_splits)
  qed
qed

text \<open>An outstanding execution resolves exactly when its \<open>close\<close> listener is called
  with code 0.\<close>

lemma resolved_iff_close_zero:
  assumes ok: "execs_ok s" and p: "p < length (execs s)" and un: "settled (execs s ! p) = None"
  shows "settled (execs (run_events evs s) ! p) = Some Resolved \<longleftrightarrow>
         (\<exists>pre post. evs = pre @ Close p (Some 0) # post \<and> in_flight (run_events pre s) p)"
proof
  assume "\<exists>pre post. evs = pre @ Close p (Some 0) # post \<and> in_flight (run_events pre s) p"
  then obtain pre post where evs: "evs = pre @ Close p (Some 0) # post"
    and fl: "in_flight (run_events pre s) p" by blast
  let ?s = "run_events pre s"
  have ok': "execs_ok ?s" using ok by (rule execs_ok_run_events)
  have p': "p < length (execs ?s)" using fl by (simp add: in_flight_def)
  with ok' fl have none: "settled (execs ?s ! p) = None"
    by (simp add: execs_ok_nth exec_ok_def in_flight_def)
  let ?s' = "emit_close p (Some 0) ?s"
  have n: "execs ?s' ! p = finished_exec Resolved (execs ?s ! p)"
    using fl by (simp add: emit_close_execs in_flight_def close_outcome_def)
  have ok'': "execs_ok ?s'" using ok' by (rule execs_ok_close)
  have p'': "p < length (execs ?s')" using p' by (simp add: emit_close_execs)
  have "core (execs (run_events post ?s') ! p) = core (execs ?s' ! p)"
    using frozen_run_events[OF ok'' p''] n by simp
  then have "settled (execs (run_events post ?s') ! p) = settled (execs ?s' ! p)"
    by (rule core_eqD(6))
  moreover have "run_events evs s = run_events post ?s'"
    by (simp add: evs run_events_def)
  ultimately show "settled (execs (run_events evs s) ! p) = Some Resolved"
    using n none by (simp add: first_settlement_def)
next
  show "\<exists>pre post. evs = pre @ Close p (Some 0) # post \<and> in_flight (run_events pre s) p"
    if "settled (execs (run_events evs s) ! p) = Some Resolved"
    using that
  proof (induction evs rule: rev_induct)
    case Nil
    then show ?case using un by (simp add: run_events_def)
  next
    case (snoc e evs)
    let ?s = "run_events evs s"
    have ok': "execs_ok ?s" using ok by (rule execs_ok_run_events)
    have p': "p < length (execs ?s)" using p run_events_length[of s evs] by simp
    from snoc.prems have "settled (execs (step e ?s) ! p) = Some Resolved"
      by (simp add: run_events_snoc)
    from settled_step[OF ok' p' this]
    consider (old) "settled (execs ?s ! p) = Some Resolved"
      | (new) code where "in_flight ?s p" "e = Close p code" "Resolved = close_outcome code"
      by auto
    then show ?case
    proof cases
      case old
      from snoc.IH[OF old] obtain pre post where
        "evs = pre @ Close p (Some 0) # post" "in_flight (run_events pre s) p" by blast
      then have "evs @ [e] = pre @ Close p (Some 0) # (post @ [e])" by simp
      with \<open>in_flight (run_events pre s) p\<close> show ?thesis by blast
    next
      case new
      then have "code = Some 0" by (simp add: close_outcome_def split: if_splits)
      with new have "evs @ [e] = evs @ Close p (Some 0) # []" by simp
      with new(1) show ?thesis by blast
    qed
  qed
qed

lemma close_settles:
  assumes ok: "execs_ok s" and fl: "in_flight s p"
  shows "settled (execs (run_events evs (emit_close p code s)) ! p) = Some (close_outcome code)"
proof -
  have p: "p < length (execs s)" using fl by (simp add: in_flight_def)
  with ok fl have none: "settled (execs s ! p) = None"
    by (simp add: execs_ok_nth exec_ok_def in_flight_def)
  let ?s' = "emit_close p code s"
  have n: "execs ?s' ! p = finished_exec (close_outcome code) (execs s ! p)"
    using fl by (simp add: emit_close_execs in_flight_def)
  have ok': "execs_ok ?s'" using ok by (rule execs_ok_close)
  have p': "p < length (execs ?s')" using p by (simp add: emit_close_execs)
  have "core (execs (run_events evs ?s') ! p) = core (execs ?s' ! p)"
    using frozen_run_events[OF ok' p'] n by simp
  then have "settled (execs (run_events evs ?s') ! p) = settled (execs ?s' ! p)"
    by (rule core_eqD(6))
  then show ?thesis using n none by (simp add: first_settlement_def)
qed

lemma settled_stable:
  assumes "p < length (execs s)" "settled (execs s ! p) = Some x"
  shows "settled (execs (step e s) ! p) = Some x"
  using assms(1)
proof (cases rule: step_exec_cases[where e = e])
  case same
  then show ?thesis using core_eqD(6) assms(2) by metis
qed (simp_all add: assms(2) first_settlement_def)

lemma filter_resolve_settled:
  assumes "r < length ps" "ps ! r = Some x"
  shows "snd (filter_resolve t q ps) ! r = Some x"
  using filter_resolve_nth[OF assms(1), of t q] assms(2) by (simp add: first_settlement_def)

lemma react_promises_stable:
  assumes "r < length (promises s)" "promises s ! r = Some x"
  shows "promises (react p s) ! r = Some x"
proof (cases p s rule: react_cases)
  case skip
  with assms show ?thesis by simp
next
  case (fulfilled item)
  have "settle_promise (promise item) Resolved (promises s) ! r = Some x"
    using assms by (cases "promise item = r") (simp_all add: settle_promise_def first_settlement_def)
  moreover have "r < length (settle_promise (promise item) Resolved (promises s))"
    using assms(1) by (simp add: settle_promise_def)
  ultimately show ?thesis
    using fulfilled(4) filter_resolve_settled
    by (simp add: set_stage_fields on_fulfilled_fields)
next
  case (rejected item e)
  have "settle_promise (promise item) (Rejected e) (promises s) ! r = Some x"
    using assms by (cases "promise item = r") (simp_all add: settle_promise_def first_settlement_def)
  then show ?thesis using rejected(4) by (simp add: set_stage_fields on_rejected_fields)
qed

lemma run_promises:
  "r < length (promises s) \<Longrightarrow> promises (snd (run sg s)) ! r = promises s ! r"
  by (cases sg s rule: run_cases) (simp_all add: runNext_fields enqueue_def nth_append)

lemma promises_stable:
  assumes "r < length (promises s)" "promises s ! r = Some x"
  shows "promises (step e s) ! r = Some x"
  using assms
  by (cases e)
     (simp_all add: run_promises memoize_def abort_fields emit_fields react_promises_stable
        on_finally_fields)

text \<open>How the chain on an execution that already exists moves with one event.\<close>

lemma handlers_step:
  assumes p: "p < length (execs s)" and h: "handlers (execs (step e s) ! p) = Some (it, st)"
  shows "handlers (execs s ! p) = Some (it, st)
       \<or> handlers (execs s ! p) = Some (it, Waiting) \<and> st = Reacted \<and> e = React p \<and>
         settled (execs s ! p) \<noteq> None
       \<or> handlers (execs s ! p) = Some (it, Reacted) \<and> st = Finished \<and> e = Finally p"
proof (cases e)
  case (Run sg)
  with p h show ?thesis by (simp add: run_execs)
next
  case Memoize
  with h show ?thesis by (simp add: memoize_def)
next
  case (Abort t)
  with p h show ?thesis by (simp add: abort_nth split: if_splits)
next
  case (Close q code)
  with p h show ?thesis by (simp add: emit_close_execs split: if_splits)
next
  case (Error q)
  with p h show ?thesis by (simp add: emit_error_execs split: if_splits)
next
  case (React q)
  show ?thesis
  proof (cases q s rule: react_cases)
    case skip
    with React h show ?thesis by simp
  next
    case (fulfilled item)
    with React p h show ?thesis
      by (cases "p = q") (auto simp: set_stage_execs on_fulfilled_fields)
  next
    case (rejected item err)
    with React p h show ?thesis
      by (cases "p = q") (auto simp: set_stage_execs on_rejected_fields)
  qed
next
  case (Finally q)
  show ?thesis
  proof (cases q s rule: on_finally_cases)
    case skip
    with Finally h show ?thesis by simp
  next
    case (drain item)
    have "execs (on_finally q s) ! p = execs (set_stage q Finished s) ! p"
      using drain(3) p runNext_execs(2)[of p "set_stage q Finished s"]
      by (simp add: set_stage_execs)
    with Finally p h drain(1,2) show ?thesis
      by (cases "p = q") (auto simp: set_stage_execs)
  qed
qed

lemma new_exec_handlers:
  assumes "length (execs s) \<le> p" "p < length (execs (step e s))"
    and "handlers (execs (step e s) ! p) = Some (it, st)"
  shows "st = Waiting"
proof -
  have rn: "st = Waiting"
    if "length (execs w) \<le> p" "p < length (execs (runNext w))"
      "handlers (execs (runNext w) ! p) = Some (it, st)" for w
    using that
    by (cases w rule: runNext_cases) (auto simp: nth_append drained_exec_def less_Suc_eq)
  show ?thesis
  proof (cases e)
    case (Run sg)
    show ?thesis
    proof (cases sg s rule: run_cases)
      case (queued t)
      with Run assms rn[of "enqueue t s"] show ?thesis by (simp add: enqueue_fields)
    next
      case direct
      with Run assms show ?thesis by (auto simp: nth_append new_exec_def less_Suc_eq)
    qed (use Run assms in simp_all)
  next
    case (Finally q)
    show ?thesis
    proof (cases q s rule: on_finally_cases)
      case skip
      with Finally assms show ?thesis by simp
    next
      case (drain item)
      with Finally assms rn[of "set_stage q Finished s"] show ?thesis
        by (simp add: set_stage_execs)
    qed
  qed (use assms in \<open>simp_all add: memoize_def abort_fields emit_close_execs emit_error_execs
        react_execs\<close>)
qed

lemma chain_result_step:
  assumes ok: "execs_ok s" and inv: "queue_inv s" and cr: "chain_result s"
  shows "chain_result (step e s)"
  unfolding chain_result_def
proof (intro allI impI)
  fix p it st
  assume p': "p < length (execs (step e s))"
    and h': "handlers (execs (step e s) ! p) = Some (it, st)" and nw: "st \<noteq> Waiting"
  have p: "p < length (execs s)"
    using new_exec_handlers[OF _ p' h'] nw by (cases "p < length (execs s)") auto
  from handlers_step[OF p h']
  consider (old) "handlers (execs s ! p) = Some (it, st)"
    | (reacted) "handlers (execs s ! p) = Some (it, Waiting)" "e = React p"
        "settled (execs s ! p) \<noteq> None"
    | (finished) "handlers (execs s ! p) = Some (it, Reacted)" "e = Finally p"
    by blast
  then show "settled (execs (step e s) ! p) \<noteq> None \<and>
             promises (step e s) ! promise it = settled (execs (step e s) ! p)"
  proof cases
    case reacted
    then obtain x where x: "settled (execs s ! p) = Some x" by auto
    have st': "settled (execs (step e s) ! p) = Some x" using settled_stable[OF p x] .
    have "promises (react p s) ! promise it = Some x"
    proof (cases x)
      case Resolved
      with react_fulfilled_effect(2)[OF inv p reacted(1)] x show ?thesis by simp
    next
      case (Rejected err)
      with react_rejected_effect(2)[OF inv p reacted(1)] x show ?thesis by simp
    qed
    with st' reacted(2) show ?thesis by simp
  next
    case old
    with cr p nw obtain x where x: "settled (execs s ! p) = Some x"
      "promises s ! promise it = Some x"
      unfolding chain_result_def by fastforce
    from inv p old have "promise it < length (promises s)"
      unfolding queue_inv_def qinv_def by force
    from promises_stable[OF this x(2)] settled_stable[OF p x(1)] show ?thesis by simp
  next
    case finished
    with cr p obtain x where x: "settled (execs s ! p) = Some x"
      "promises s ! promise it = Some x"
      unfolding chain_result_def by fastforce
    from inv p finished have "promise it < length (promises s)"
      unfolding queue_inv_def qinv_def by force
    from promises_stable[OF this x(2)] settled_stable[OF p x(1)] show ?thesis by simp
  qed
qed

lemma chain_result_run_events:
  assumes "execs_ok s" "queue_inv s" "chain_result s"
  shows "chain_result (run_events evs s)"
proof (induction evs rule: rev_induct)
  case Nil
  then show ?case using assms(3) by (simp add: run_events_def)
next
  case (snoc e evs)
  then show ?case
    using chain_result_step[OF execs_ok_run_events[OF assms(1)] queue_inv_run_events[OF assms(2)]]
    by (simp add: run_events_snoc)
qed

lemma queue_inv_init: "queue_inv (init i c)"
  by (simp add: queue_inv_def qinv_def init_def)

lemma chain_result_reachable: "chain_result (run_events evs (init i c))"
proof (rule chain_result_run_events)
  show "execs_ok (init i c)" by (rule execs_ok_init)
  show "queue_inv (init i c)" by (rule queue_inv_init)
  show "chain_result (init i c)" by (simp add: chain_result_def init_def)
qed

lemma handlers_item_run_events:
  assumes "p < length (execs s)" "handlers (execs s ! p) = Some (it, st)"
  shows "\<exists>st'. handlers (execs (run_events evs s) ! p) = Some (it, st')"
proof (induction evs rule: rev_induct)
  case Nil
  then show ?case using assms(2) by (simp add: run_events_def)
next
  case (snoc e evs)
  let ?s = "run_events evs s"
  have p': "p < length (execs ?s)" using assms(1) run_events_length[of s evs] by simp
  from snoc obtain st' where h: "handlers (execs ?s ! p) = Some (it, st')" by blast
  have "handlers (execs (step e ?s) ! p) \<noteq> None"
    using handlers_none_step[OF p', of e] h by simp
  then obtain it' st'' where h': "handlers (execs (step e ?s) ! p) = Some (it', st'')" by auto
  from handlers_step[OF p' h'] h have "it' = it" by auto
  with h' show ?case by (auto simp: run_events_snoc)
qed

text \<open>The promise of a drained request is pending or carries the outcome of its
  execution.\<close>

lemma request_follows_exec:
  assumes s: "s = run_events evs (init i c)" and p: "p < length (execs s)"
    and h: "handlers (execs s ! p) = Some (it, st)"
  shows "promises (run_events evs' s) ! promise it = None
       \<or> promises (run_events evs' s) ! promise it = settled (execs (run_events evs' s) ! p)"
proof -
  let ?s = "run_events evs' s"
  have r: "?s = run_events (evs @ evs') (init i c)" by (simp add: s run_events_append)
  have p': "p < length (execs ?s)" using p run_events_length[of s evs'] by simp
  from handlers_item_run_events[OF p h, of evs'] obtain st' where
    h': "handlers (execs ?s ! p) = Some (it, st')" by blast
  show ?thesis
  proof (cases "st' = Waiting")
    case True
    have "queue_inv ?s" unfolding r by (rule queue_inv_reachable)
    from queue_inv_waiting(2)[OF this p'] h' True show ?thesis by simp
  next
    case False
    have "chain_result ?s" unfolding r by (rule chain_result_reachable)
    with p' h' False show ?thesis unfolding chain_result_def by blast
  qed
qed

text \<open>
  The life of one execution, in every state the instance can reach: \<open>cleanup\<close> has
  run at most once, \<open>resolve\<close>/\<open>reject\<close> have been called exactly as often as
  \<open>cleanup\<close> ran, the promise is settled exactly when \<open>cleanup\<close> has run once, and
  the execution is outstanding exactly when it is not settled. While it is
  outstanding, the token firing makes it fail with \<open>Aborted\<close>, a \<open>close\<close> settles it
  by the exit code and an \<open>error\<close> makes it fail, each with one \<open>cleanup\<close> and
  \<open>_childProcess\<close> empty afterwards. After the token fired, a \<open>close\<close> changes
  nothing, and after a \<open>close\<close> or an \<open>error\<close> the token firing changes nothing of
  the execution; but an \<open>error\<close> after the token fired finds no listener and is
  thrown. Once the execution is no longer outstanding, no later history changes
  anything of it but the stage of the chain on its promise.
\<close>

lemma exec_lifecycle:
  assumes "s = run_events evs (init i c)" and "p < length (execs s)"
  shows "kills (execs s ! p) \<le> 1 \<and>
         settle_calls (execs s ! p) = kills (execs s ! p) \<and>
         (settled (execs s ! p) \<noteq> None \<longleftrightarrow> kills (execs s ! p) = 1) \<and>
         (in_flight s p \<longleftrightarrow> settled (execs s ! p) = None) \<and>
         (in_flight s p \<and> exec_signal (execs s ! p) = Some t \<and> t \<notin> set (aborted s) \<longrightarrow>
            settled (execs (abort t s) ! p) = Some (Rejected Aborted) \<and>
            kills (execs (abort t s) ! p) = 1 \<and>
            childProcess (abort t s) = None \<and>
            emit_close p code (abort t s) = abort t s \<and>
            emit_error p (abort t s) = (abort t s)\<lparr>uncaught := Suc (uncaught (abort t s))\<rparr>) \<and>
         (in_flight s p \<longrightarrow>
            settled (execs (emit_close p code s) ! p) = Some (close_outcome code) \<and>
            kills (execs (emit_close p code s) ! p) = 1 \<and>
            childProcess (emit_close p code s) = None \<and>
            execs (abort t (emit_close p code s)) ! p = execs (emit_close p code s) ! p \<and>
            childProcess (abort t (emit_close p code s)) = None) \<and>
         (in_flight s p \<longrightarrow>
            settled (execs (emit_error p s) ! p) = Some (Rejected SpawnError) \<and>
            kills (execs (emit_error p s) ! p) = 1 \<and>
            childProcess (emit_error p s) = None \<and>
            execs (abort t (emit_error p s)) ! p = execs (emit_error p s) ! p \<and>
            childProcess (abort t (emit_error p s)) = None) \<and>
         (\<not> in_flight s p \<longrightarrow>
            core (execs (run_events evs' s) ! p) = core (execs s ! p))"
proof -
  have ok: "execs_ok s" using assms(1) by (simp add: execs_ok_reachable)
  then have e: "exec_ok (execs s ! p)" using assms(2) by (simp add: execs_ok_nth)
  have counts: "kills (execs s ! p) \<le> 1 \<and>
         settle_calls (execs s ! p) = kills (execs s ! p) \<and>
         (settled (execs s ! p) \<noteq> None \<longleftrightarrow> kills (execs s ! p) = 1) \<and>
         (in_flight s p \<longleftrightarrow> settled (execs s ! p) = None)"
    using e assms(2) by (auto simp: exec_ok_def in_flight_def split: if_splits)
  have ab: "settled (execs (abort t s) ! p) = Some (Rejected Aborted) \<and>
            kills (execs (abort t s) ! p) = 1 \<and>
            childProcess (abort t s) = None \<and>
            emit_close p code (abort t s) = abort t s \<and>
            emit_error p (abort t s) = (abort t s)\<lparr>uncaught := Suc (uncaught (abort t s))\<rparr>"
    if f: "in_flight s p" and sg: "exec_signal (execs s ! p) = Some t" and na: "t \<notin> set (aborted s)"
  proof -
    from f e sg have al: "abort_listening (execs s ! p)" "settled (execs s ! p) = None"
      "kills (execs s ! p) = 0"
      by (auto simp: exec_ok_def in_flight_def)
    then have n: "execs (abort t s) ! p = finished_exec (Rejected Aborted) (execs s ! p)"
      using assms(2) sg na by (simp add: abort_nth)
    have "p \<in> set (abort_listeners t s)" using assms(2) sg al by (simp add: abort_listeners_set)
    then have L: "abort_listeners t s \<noteq> []" by auto
    show ?thesis
      using n al L na assms(2)
      by (simp add: first_settlement_def abort_childProcess emit_close_def emit_error_def
            abort_fields)
  qed
  have fin: "execs (abort t s') ! p = execs s' ! p \<and> childProcess (abort t s') = None"
    if "p < length (execs s')" "\<not> abort_listening (execs s' ! p)" "childProcess s' = None" for s'
    using that by (simp add: abort_nth abort_childProcess)
  have cl: "settled (execs (emit_close p code s) ! p) = Some (close_outcome code) \<and>
            kills (execs (emit_close p code s) ! p) = 1 \<and>
            childProcess (emit_close p code s) = None \<and>
            execs (abort t (emit_close p code s)) ! p = execs (emit_close p code s) ! p \<and>
            childProcess (abort t (emit_close p code s)) = None"
    if f: "in_flight s p"
  proof -
    from f e have al: "settled (execs s ! p) = None" "kills (execs s ! p) = 0"
      "child_listening (execs s ! p)"
      by (auto simp: exec_ok_def in_flight_def)
    have n: "execs (emit_close p code s) ! p = finished_exec (close_outcome code) (execs s ! p)"
      using assms(2) al by (simp add: emit_close_execs)
    have c: "childProcess (emit_close p code s) = None"
      using assms(2) al by (simp add: emit_close_def onClose_eq)
    show ?thesis
      using n al c fin[of "emit_close p code s"] assms(2)
      by (simp add: first_settlement_def emit_close_execs)
  qed
  have er: "settled (execs (emit_error p s) ! p) = Some (Rejected SpawnError) \<and>
            kills (execs (emit_error p s) ! p) = 1 \<and>
            childProcess (emit_error p s) = None \<and>
            execs (abort t (emit_error p s)) ! p = execs (emit_error p s) ! p \<and>
            childProcess (abort t (emit_error p s)) = None"
    if f: "in_flight s p"
  proof -
    from f e have al: "settled (execs s ! p) = None" "kills (execs s ! p) = 0"
      "child_listening (execs s ! p)"
      by (auto simp: exec_ok_def in_flight_def)
    have n: "execs (emit_error p s) ! p = finished_exec (Rejected SpawnError) (execs s ! p)"
      using assms(2) al by (simp add: emit_error_execs)
    have c: "childProcess (emit_error p s) = None"
      using assms(2) al by (simp add: emit_error_def onError_eq)
    show ?thesis
      using n al c fin[of "emit_error p s"] assms(2)
      by (simp add: first_settlement_def emit_error_execs)
  qed
  have fr: "core (execs (run_events evs' s) ! p) = core (execs s ! p)" if "\<not> in_flight s p"
    using frozen_run_events[OF ok assms(2)] that assms(2) by (simp add: in_flight_def)
  from counts ab cl er fr show ?thesis by blast
qed



section \<open>The claims\<close>

text \<open>
  C1 fails on this history of a memoized instance: \<open>run(A)\<close> is drained at once
  (execution 0), \<open>run()\<close> without a token starts execution 1 and overwrites
  \<open>_childProcess\<close>, execution 1 closes and empties \<open>_childProcess\<close>, and a second
  \<open>run(A)\<close>, issued while the first is still pending, is queued and drained at
  once (execution 2). Two processes are spawned for the two calls, both in
  flight; and when execution 0 closes with code 0 and its callbacks run, only
  the first call is resolved: the second is no longer in the queue and waits for
  execution 2. (The first half of the claim holds in every history:
  \<open>react_fulfilled_effect\<close> with \<open>queue_inv_reachable\<close>; and from an idle
  instance two calls in a row spawn once and are both resolved:
  \<open>two_concurrent_runs\<close>.)
\<close>

theorem direct_exec_lets_same_token_spawn_twice:
  "memoizeOn respawned \<and>
   fst (run (Some 7) (run_events [Memoize] (init 1 ''test command''))) = Queued 0 \<and>
   fst (run (Some 7)
     (run_events [Memoize, Run (Some 7), Run None, Close 1 (Some 0)] (init 1 ''test command'')))
     = Queued 1 \<and>
   promises (run_events [Memoize, Run (Some 7), Run None, Close 1 (Some 0)]
     (init 1 ''test command'')) = [None] \<and>
   length (execs respawned) = 3 \<and>
   handlers (execs respawned ! 0) = Some (\<lparr>promise = 0, signal = 7\<rparr>, Waiting) \<and>
   handlers (execs respawned ! 1) = None \<and>
   handlers (execs respawned ! 2) = Some (\<lparr>promise = 1, signal = 7\<rparr>, Waiting) \<and>
   in_flight respawned 0 \<and> in_flight respawned 2 \<and>
   queue respawned = [] \<and> promises respawned = [None, None] \<and>
   promises (run_events [Close 0 (Some 0), React 0, Finally 0] respawned)
     = [Some Resolved, None] \<and>
   in_flight (run_events [Close 0 (Some 0), React 0, Finally 0] respawned) 2"
  by code_simp

text \<open>
  C2 fails on this history of a memoized instance: \<open>run(A)\<close> is drained at once
  (execution 0), \<open>run()\<close> without a token starts execution 1 and overwrites
  \<open>_childProcess\<close>, execution 1 closes and empties \<open>_childProcess\<close>, and \<open>run(B)\<close>
  is then drained (execution 2) while execution 0 is still in flight and not
  cleaned up. (Without direct executions the queued ones never overlap:
  \<open>serial_run_events\<close>; the arrival order is kept in every history:
  \<open>queue_inv_reachable\<close>.)
\<close>

theorem direct_exec_lets_queued_overlap:
  "memoizeOn overlapping \<and>
   handlers (execs overlapping ! 0) = Some (\<lparr>promise = 0, signal = 7\<rparr>, Waiting) \<and>
   handlers (execs overlapping ! 1) = None \<and>
   handlers (execs overlapping ! 2) = Some (\<lparr>promise = 1, signal = 8\<rparr>, Waiting) \<and>
   in_flight overlapping 0 \<and> kills (execs overlapping ! 0) = 0 \<and>
   in_flight overlapping 2 \<and> childProcess overlapping = Some 2"
  by code_simp

text \<open>
  C3 fails on this history: \<open>run(A)\<close> starts execution 0, the token fires and
  \<open>onAbort\<close> runs \<open>cleanup\<close> once and rejects with \<open>Aborted\<close>, and then the child
  emits \<open>error\<close>. \<open>cleanup\<close> has removed the \<open>error\<close> listener together with the
  others, so the second event of the race is not a no-op: the execution keeps
  its one \<open>cleanup\<close>, its one settlement and the empty \<open>_childProcess\<close>, but the
  \<open>error\<close> is thrown by the emitter and nothing catches it. (What the claim says
  of the counts, and of the race between the token and \<open>close\<close>, holds in every
  history: \<open>exec_lifecycle\<close>.)
\<close>

theorem error_after_cleanup_is_thrown:
  "in_flight (run_events [Run (Some 7)] (init 1 ''test command'')) 0 \<and>
   settled (execs (run_events [Run (Some 7), Abort 7] (init 1 ''test command'')) ! 0)
     = Some (Rejected Aborted) \<and>
   kills (execs (run_events [Run (Some 7), Abort 7] (init 1 ''test command'')) ! 0) = 1 \<and>
   child_listening (execs (run_events [Run (Some 7), Abort 7] (init 1 ''test command'')) ! 0)
     = False \<and>
   uncaught (run_events [Run (Some 7), Abort 7] (init 1 ''test command'')) = 0 \<and>
   uncaught abort_then_error = 1 \<and>
   settled (execs abort_then_error ! 0) = Some (Rejected Aborted) \<and>
   kills (execs abort_then_error ! 0) = 1 \<and> settle_calls (execs abort_then_error ! 0) = 1 \<and>
   childProcess abort_then_error = None \<and>
   emit_close 0 None (run_events [Run (Some 7), Abort 7] (init 1 ''test command''))
     = run_events [Run (Some 7), Abort 7] (init 1 ''test command'')"
  by code_simp

text \<open>
  C4. When the token is already cancelled, \<open>run(token)\<close> returns a promise rejected
  with \<open>'Signal already aborted'\<close> and leaves the whole state as it was: nothing is
  spawned, queued or recorded. The check comes first, so this holds in every
  state, also when memoization is on and the token is in \<open>successfulList\<close>.
\<close>

theorem run_already_cancelled:
  assumes "t \<in> set (aborted s)"
  shows "run (Some t) s = (Now (Rejected AlreadyCancelled), s)"
  using assms by (simp add: run_def signal_aborted_def)

theorem run_already_cancelled_witness:
  "7 \<in> set (aborted cached_and_cancelled) \<and> memoizeOn cached_and_cancelled \<and>
   7 \<in> set (successfulList cached_and_cancelled) \<and>
   run (Some 7) cached_and_cancelled = (Now (Rejected AlreadyCancelled), cached_and_cancelled)"
proof -
  have h: "7 \<in> set (aborted cached_and_cancelled)" by code_simp
  have m: "memoizeOn cached_and_cancelled" by code_simp
  have c: "7 \<in> set (successfulList cached_and_cancelled)" by code_simp
  from run_already_cancelled[OF h] h m c show ?thesis by simp
qed

text \<open>
  C5, as the code has it. In every state the instance can reach, for a call of
  \<open>run\<close> with memoization off or without a token: unless the token is already
  cancelled (the first check of \<open>run\<close>, which then rejects and does nothing
  else), \<open>run\<close> spawns one process, queues nothing and returns the promise of
  that execution. For every later
  history, the returned promise is resolved exactly when the call was executed
  and the history contains a \<open>close\<close> with code 0 delivered while the execution
  was outstanding; and a \<open>close\<close> delivered while it is outstanding settles it for
  good, resolved for code 0 and rejected with \<open>NonZeroExit(code)\<close> otherwise.
\<close>

theorem direct_run_exit_code:
  assumes "s = run_events evs0 (init i c)"
    and "\<not> memoizeOn s \<or> sg = None"
    and "p = length (execs s)" and "s1 = snd (run sg s)"
  shows "(signal_aborted sg s \<longrightarrow> run sg s = (Now (Rejected AlreadyCancelled), s)) \<and>
         (\<not> signal_aborted sg s \<longrightarrow>
            run sg s = (Exec p, s\<lparr>childProcess := Some p, execs := execs s @ [new_exec sg]\<rparr>) \<and>
            queue s1 = queue s \<and> promises s1 = promises s \<and>
            length (execs s1) = Suc (length (execs s)) \<and> in_flight s1 p) \<and>
         (result_of (run_events evs s1) (fst (run sg s)) = Some Resolved \<longleftrightarrow>
            \<not> signal_aborted sg s \<and>
            (\<exists>pre post. evs = pre @ Close p (Some 0) # post \<and> in_flight (run_events pre s1) p)) \<and>
         (\<not> signal_aborted sg s \<and> in_flight (run_events evs s1) p \<longrightarrow>
            result_of (run_events evs' (emit_close p code (run_events evs s1))) (fst (run sg s)) =
              Some (if code = Some 0 then Resolved else Rejected (NonZeroExit code)))"
proof (cases "signal_aborted sg s")
  case True
  then have "run sg s = (Now (Rejected AlreadyCancelled), s)" by (simp add: run_def)
  with True show ?thesis by (simp add: result_of_def)
next
  case False
  have r: "run sg s = (Exec p, s\<lparr>childProcess := Some p, execs := execs s @ [new_exec sg]\<rparr>)"
    using assms(2,3) False by (cases sg s rule: run_cases) (auto simp: signal_aborted_def)
  then have e1: "s1 = s\<lparr>childProcess := Some p, execs := execs s @ [new_exec sg]\<rparr>"
    by (simp add: assms(4))
  have ok: "execs_ok s1"
    using execs_ok_run[OF execs_ok_reachable, of sg evs0 i c] assms(1,4) by simp
  have p1: "p < length (execs s1)" by (simp add: e1 assms(3))
  have un: "settled (execs s1 ! p) = None" by (simp add: e1 assms(3) new_exec_def)
  have fl: "in_flight s1 p" by (simp add: e1 assms(3) in_flight_def new_exec_def)
  have len: "p < length (execs (run_events es s1))" for es
    using p1 run_events_length[of s1 es] by simp
  have iff: "result_of (run_events evs s1) (Exec p) = Some Resolved \<longleftrightarrow>
            (\<exists>pre post. evs = pre @ Close p (Some 0) # post \<and> in_flight (run_events pre s1) p)"
    using resolved_iff_close_zero[OF ok p1 un, of evs] len[of evs] by (simp add: result_of_def)
  have cl: "result_of (run_events evs' (emit_close p code (run_events evs s1))) (Exec p) =
              Some (if code = Some 0 then Resolved else Rejected (NonZeroExit code))"
    if f: "in_flight (run_events evs s1) p"
  proof -
    have ok': "execs_ok (run_events evs s1)" using ok by (rule execs_ok_run_events)
    have "p < length (execs (emit_close p code (run_events evs s1)))"
      using len[of evs] by (simp add: emit_close_execs)
    then have "p < length (execs (run_events evs' (emit_close p code (run_events evs s1))))"
      using run_events_length[of "emit_close p code (run_events evs s1)" evs'] by simp
    with close_settles[OF ok' f, of evs' code] show ?thesis
      by (simp add: result_of_def close_outcome_def)
  qed
  from False r e1 fl iff cl show ?thesis by (simp add: assms(3))
qed

theorem direct_run_exit_code_witness:
  "init 1 ''test command'' = run_events [] (init 1 ''test command'') \<and>
   \<not> memoizeOn (init 1 ''test command'') \<and>
   \<not> signal_aborted None (init 1 ''test command'') \<and>
   (0::nat) = length (execs (init 1 ''test command'')) \<and>
   in_flight (run_events [] (snd (run None (init 1 ''test command'')))) 0 \<and>
   fst (run None (init 1 ''test command'')) = Exec 0 \<and>
   result_of (run_events [] (emit_close 0 (Some 1)
      (run_events [] (snd (run None (init 1 ''test command'')))))) (Exec 0) =
     Some (Rejected (NonZeroExit (Some 1)))"
proof -
  have a: "init 1 ''test command'' = run_events [] (init 1 ''test command'')"
    by (simp add: run_events_def)
  have m: "\<not> memoizeOn (init 1 ''test command'')" by (simp add: init_def)
  then have b: "\<not> memoizeOn (init 1 ''test command'') \<or> (None :: AbortSignal option) = None"
    by simp
  have c: "\<not> signal_aborted None (init 1 ''test command'')" by (simp add: signal_aborted_def)
  have d: "(0::nat) = length (execs (init 1 ''test command''))" by (simp add: init_def)
  have f: "in_flight (run_events [] (snd (run None (init 1 ''test command'')))) 0"
    by code_simp
  note T = direct_run_exit_code[OF a b d refl, of "[]" "[]" "Some 1"]
  from T c have r: "fst (run None (init 1 ''test command'')) = Exec 0" by simp
  from T c f have "result_of (run_events [] (emit_close 0 (Some 1)
      (run_events [] (snd (run None (init 1 ''test command'')))))) (fst (run None (init 1 ''test command''))) =
     Some (if Some (1::int) = Some 0 then Resolved else Rejected (NonZeroExit (Some 1)))"
    by blast
  then have "result_of (run_events [] (emit_close 0 (Some 1)
      (run_events [] (snd (run None (init 1 ''test command'')))))) (Exec 0) =
     Some (Rejected (NonZeroExit (Some 1)))" using r by simp
  with a m c d f r show ?thesis by blast
qed

text \<open>
  C5 as stated fails on an instance without memoization when the token is already
  cancelled: \<open>run\<close> rejects with \<open>AlreadyCancelled\<close> and executes nothing.
\<close>

theorem cancelled_token_is_not_executed:
  "\<not> memoizeOn cancelled_first \<and> execs cancelled_first = [] \<and>
   run (Some 7) cancelled_first = (Now (Rejected AlreadyCancelled), cancelled_first) \<and>
   execs (snd (run (Some 7) cancelled_first)) = [] \<and>
   childProcess (snd (run (Some 7) cancelled_first)) = None"
  by code_simp

text \<open>
  C6. Once memoization is on and the token is in \<open>successfulList\<close>, then after any
  further events, as long as the token is not cancelled, \<open>run(token)\<close> returns a
  resolved promise and leaves the state as it was: no execution, no spawn. The
  membership test is on the identity of the signal.
\<close>

theorem run_memoized:
  assumes "memoizeOn s" and "t \<in> set (successfulList s)"
    and "t \<notin> set (aborted (run_events evs s))"
  shows "run (Some t) (run_events evs s) = (Now Resolved, run_events evs s)"
proof -
  have "memoizeOn (run_events evs s)" using assms(1) by (rule run_events_memoizeOn)
  moreover have "t \<in> set (successfulList (run_events evs s))"
    using assms(2) run_events_successfulList by blast
  ultimately show ?thesis
    using assms(3) by (simp add: run_def signal_aborted_def already_succeeded_def)
qed

theorem run_memoized_witness:
  "memoizeOn cached \<and> 7 \<in> set (successfulList cached) \<and>
   7 \<notin> set (aborted (run_events [Finally 0, Abort 8, Run (Some 9)] cached)) \<and>
   run (Some 7) (run_events [Finally 0, Abort 8, Run (Some 9)] cached) =
     (Now Resolved, run_events [Finally 0, Abort 8, Run (Some 9)] cached)"
proof -
  have m: "memoizeOn cached" by code_simp
  have c: "7 \<in> set (successfulList cached)" by code_simp
  have a: "7 \<notin> set (aborted (run_events [Finally 0, Abort 8, Run (Some 9)] cached))" by code_simp
  from run_memoized[OF m c a] m c a show ?thesis by simp
qed




text \<open>
  C8 fails on this history of a memoized instance: \<open>run()\<close> without a token starts
  execution 0 directly, \<open>run(A)\<close> is queued and \<open>runNext\<close> returns because
  \<open>_childProcess\<close> is set; execution 0 closes with code 0, and nothing calls
  \<open>runNext\<close>: the request stays queued and unsettled with \<open>_childProcess\<close> empty,
  and no callback is left to run.
\<close>

theorem direct_exec_strands_queue:
  "childProcess (run_events [Memoize, Run None, Run (Some 7)] (init 1 ''test command'')) = Some 0 \<and>
   queue (run_events [Memoize, Run None, Run (Some 7)] (init 1 ''test command''))
     = [\<lparr>promise = 0, signal = 7\<rparr>] \<and>
   settled (execs stranded ! 0) = Some Resolved \<and> handlers (execs stranded ! 0) = None \<and>
   length (execs stranded) = 1 \<and> childProcess stranded = None \<and>
   queue stranded = [\<lparr>promise = 0, signal = 7\<rparr>] \<and> promises stranded = [None] \<and>
   react 0 stranded = stranded \<and> on_finally 0 stranded = stranded"
  by code_simp

text \<open>
  C9. The flag \<open>_memoize\<close> is false in a new instance, true after \<open>memoize\<close>, and
  true for ever after. As a method, \<open>memoize\<close> returns the reference it was called
  on: the store has no new object, the object behind the reference differs only
  in the flag, the other objects are untouched, and in every later store the
  returned reference reads the same object as the original one.
\<close>

theorem memoize_flag_and_identity:
  "\<not> memoizeOn (new_PredictedProcess i c) \<and> \<not> memoizeOn (init i c) \<and>
   memoizeOn (memoize s) \<and>
   (memoizeOn s \<longrightarrow> memoizeOn (run_events evs s)) \<and>
   (r < length h \<longrightarrow>
      fst (memoize_method r h) = r \<and>
      length (snd (memoize_method r h)) = length h \<and>
      snd (memoize_method r h) ! r = (h ! r)\<lparr>memoizeOn := True\<rparr> \<and>
      proc_id (snd (memoize_method r h) ! r) = proc_id (h ! r) \<and>
      command (snd (memoize_method r h) ! r) = command (h ! r) \<and>
      (\<forall>r'. r' \<noteq> r \<longrightarrow> snd (memoize_method r h) ! r' = h ! r') \<and>
      (\<forall>h'. h' ! fst (memoize_method r h) = h' ! r))"
  by (simp add: new_PredictedProcess_def init_def memoize_def run_events_memoizeOn
        memoize_method_def)

theorem memoize_flag_and_identity_witness:
  "memoizeOn (memoize (init 1 ''test command'')) \<and>
   memoizeOn (run_events [Run (Some 7), Abort 7, React 0, Finally 0, Run None]
                (memoize (init 1 ''test command''))) \<and>
   (0::nat) < length [new_PredictedProcess 1 ''test command''] \<and>
   fst (memoize_method 0 [new_PredictedProcess 1 ''test command'']) = 0 \<and>
   length (snd (memoize_method 0 [new_PredictedProcess 1 ''test command''])) = 1 \<and>
   memoizeOn (snd (memoize_method 0 [new_PredictedProcess 1 ''test command'']) ! 0)"
proof -
  have m: "memoizeOn (memoize (init 1 ''test command''))" by (simp add: memoize_def)
  have l: "(0::nat) < length [new_PredictedProcess 1 ''test command'']" by simp
  from memoize_flag_and_identity[of 1 "''test command''" "memoize (init 1 ''test command'')"
         "[Run (Some 7), Abort 7, React 0, Finally 0, Run None]" 0
         "[new_PredictedProcess 1 ''test command'']"] m l
  show ?thesis by (simp add: memoize_method_def memoize_def)
qed

text \<open>
  C10. First part, in any state: with memoization on, \<open>_childProcess\<close> empty and a
  queue whose head has a token that is already cancelled, \<open>runNext\<close> still takes
  the head and starts its execution. Second part, in every state the instance
  can reach: for a drained execution in flight whose token is already cancelled,
  aborting the token again changes nothing, no later history makes the execution
  or the request fail with \<open>Aborted\<close>, and after a \<open>close\<close> or an \<open>error\<close> the
  callback settles the request by the exit code or with \<open>SpawnError\<close>.
\<close>

theorem cancelled_while_queued_still_runs:
  "(memoizeOn w \<and> childProcess w = None \<and> queue w = item # rest \<and>
    signal item \<in> set (aborted w) \<longrightarrow>
      runNext w = w\<lparr>childProcess := Some (length (execs w)), queue := rest,
                    execs := execs w @ [drained_exec item]\<rparr> \<and>
      in_flight (runNext w) (length (execs w)) \<and>
      exec_signal (execs (runNext w) ! length (execs w)) = Some (signal item)) \<and>
   (s = run_events evs (init i c) \<and> in_flight s p \<and>
    handlers (execs s ! p) = Some (it, Waiting) \<and>
    exec_signal (execs s ! p) = Some t \<and> t \<in> set (aborted s) \<longrightarrow>
      abort t s = s \<and>
      settled (execs (run_events evs' s) ! p) \<noteq> Some (Rejected Aborted) \<and>
      promises (run_events evs' s) ! promise it \<noteq> Some (Rejected Aborted) \<and>
      promises (react p (emit_close p code s)) ! promise it =
        Some (if code = Some 0 then Resolved else Rejected (NonZeroExit code)) \<and>
      promises (react p (emit_error p s)) ! promise it = Some (Rejected SpawnError))"
proof (intro conjI impI)
  assume a: "memoizeOn w \<and> childProcess w = None \<and> queue w = item # rest \<and>
    signal item \<in> set (aborted w)"
  then have sp: "runNext w = w\<lparr>childProcess := Some (length (execs w)), queue := rest,
                    execs := execs w @ [drained_exec item]\<rparr>"
    by (simp add: runNext_spawn)
  then show "runNext w = w\<lparr>childProcess := Some (length (execs w)), queue := rest,
                    execs := execs w @ [drained_exec item]\<rparr>" .
  show "in_flight (runNext w) (length (execs w))"
    by (simp add: sp in_flight_def drained_exec_def new_exec_def)
  show "exec_signal (execs (runNext w) ! length (execs w)) = Some (signal item)"
    by (simp add: sp drained_exec_def new_exec_def)
next
  assume b: "s = run_events evs (init i c) \<and> in_flight s p \<and>
    handlers (execs s ! p) = Some (it, Waiting) \<and>
    exec_signal (execs s ! p) = Some t \<and> t \<in> set (aborted s)"
  then have ok: "execs_ok s" and inv: "queue_inv s"
    by (simp_all add: execs_ok_reachable queue_inv_reachable)
  from b have fl: "in_flight s p" and h: "handlers (execs s ! p) = Some (it, Waiting)"
    and sg: "exec_signal (execs s ! p) = Some t" and ab: "t \<in> set (aborted s)" by blast+
  from fl have p: "p < length (execs s)" and cl: "child_listening (execs s ! p)"
    by (simp_all add: in_flight_def)
  from ok p cl have un: "settled (execs s ! p) = None" by (simp add: execs_ok_nth exec_ok_def)
  show "abort t s = s" using ab by (rule abort_again)
  show na: "settled (execs (run_events evs' s) ! p) \<noteq> Some (Rejected Aborted)"
    using never_aborted[OF ok p sg ab] un by simp
  from b have "s = run_events evs (init i c)" by blast
  from request_follows_exec[OF this p h, of evs'] na
  show "promises (run_events evs' s) ! promise it \<noteq> Some (Rejected Aborted)" by auto
  show "promises (react p (emit_close p code s)) ! promise it =
        Some (if code = Some 0 then Resolved else Rejected (NonZeroExit code))"
  proof -
    let ?s = "emit_close p code s"
    have inv': "queue_inv ?s" using queue_inv_step[OF inv, of "Close p code"] by simp
    have p': "p < length (execs ?s)" using p by (simp add: emit_close_execs)
    have n: "execs ?s ! p = finished_exec (close_outcome code) (execs s ! p)"
      using p cl by (simp add: emit_close_execs)
    have h': "handlers (execs ?s ! p) = Some (it, Waiting)" using n h by simp
    have st: "settled (execs ?s ! p) = Some (close_outcome code)"
      using n un by (simp add: first_settlement_def)
    show ?thesis
    proof (cases "code = Some 0")
      case True
      with st have "settled (execs ?s ! p) = Some Resolved" by (simp add: close_outcome_def)
      from react_fulfilled_effect(2)[OF inv' p' h' this] True show ?thesis by simp
    next
      case False
      with st have "settled (execs ?s ! p) = Some (Rejected (NonZeroExit code))"
        by (simp add: close_outcome_def)
      from react_rejected_effect(2)[OF inv' p' h' this] False show ?thesis by simp
    qed
  qed
  show "promises (react p (emit_error p s)) ! promise it = Some (Rejected SpawnError)"
  proof -
    let ?s = "emit_error p s"
    have inv': "queue_inv ?s" using queue_inv_step[OF inv, of "Error p"] by simp
    have p': "p < length (execs ?s)" using p by (simp add: emit_error_execs)
    have n: "execs ?s ! p = finished_exec (Rejected SpawnError) (execs s ! p)"
      using p cl by (simp add: emit_error_execs)
    have h': "handlers (execs ?s ! p) = Some (it, Waiting)" using n h by simp
    have st: "settled (execs ?s ! p) = Some (Rejected SpawnError)"
      using n un by (simp add: first_settlement_def)
    from react_rejected_effect(2)[OF inv' p' h' st] show ?thesis .
  qed
qed

theorem cancelled_while_queued_still_runs_witness:
  "memoizeOn (set_stage 0 Finished cancelled_in_queue) \<and>
   childProcess (set_stage 0 Finished cancelled_in_queue) = None \<and>
   queue (set_stage 0 Finished cancelled_in_queue) = \<lparr>promise = 1, signal = 8\<rparr> # [] \<and>
   signal \<lparr>promise = 1, signal = 8\<rparr> \<in> set (aborted (set_stage 0 Finished cancelled_in_queue)) \<and>
   in_flight (runNext (set_stage 0 Finished cancelled_in_queue))
     (length (execs (set_stage 0 Finished cancelled_in_queue))) \<and>
   on_finally 0 cancelled_in_queue = run_events [Memoize, Run (Some 7), Run (Some 8), Abort 8,
      Close 0 (Some 0), React 0, Finally 0] (init 1 ''test command'') \<and>
   in_flight (on_finally 0 cancelled_in_queue) 1 \<and>
   handlers (execs (on_finally 0 cancelled_in_queue) ! 1) = Some (\<lparr>promise = 1, signal = 8\<rparr>, Waiting) \<and>
   exec_signal (execs (on_finally 0 cancelled_in_queue) ! 1) = Some 8 \<and>
   8 \<in> set (aborted (on_finally 0 cancelled_in_queue)) \<and>
   abort 8 (on_finally 0 cancelled_in_queue) = on_finally 0 cancelled_in_queue \<and>
   settled (execs (run_events [Close 1 None] (on_finally 0 cancelled_in_queue)) ! 1)
     \<noteq> Some (Rejected Aborted)"
proof -
  have a: "memoizeOn (set_stage 0 Finished cancelled_in_queue) \<and>
    childProcess (set_stage 0 Finished cancelled_in_queue) = None \<and>
    queue (set_stage 0 Finished cancelled_in_queue) = \<lparr>promise = 1, signal = 8\<rparr> # [] \<and>
    signal \<lparr>promise = 1, signal = 8\<rparr> \<in> set (aborted (set_stage 0 Finished cancelled_in_queue))"
    by code_simp
  have b: "on_finally 0 cancelled_in_queue = run_events [Memoize, Run (Some 7), Run (Some 8),
      Abort 8, Close 0 (Some 0), React 0, Finally 0] (init 1 ''test command'')"
    by (simp add: cancelled_in_queue_def run_events_def)
  have c: "in_flight (on_finally 0 cancelled_in_queue) 1 \<and>
    handlers (execs (on_finally 0 cancelled_in_queue) ! 1) = Some (\<lparr>promise = 1, signal = 8\<rparr>, Waiting) \<and>
    exec_signal (execs (on_finally 0 cancelled_in_queue) ! 1) = Some 8 \<and>
    8 \<in> set (aborted (on_finally 0 cancelled_in_queue))"
    by code_simp
  note T = cancelled_while_queued_still_runs[where w = "set_stage 0 Finished cancelled_in_queue"
      and item = "\<lparr>promise = 1, signal = 8\<rparr>" and rest = "[]"
      and s = "on_finally 0 cancelled_in_queue"
      and evs = "[Memoize, Run (Some 7), Run (Some 8), Abort 8, Close 0 (Some 0), React 0, Finally 0]"
      and i = 1 and c = "''test command''" and p = 1 and it = "\<lparr>promise = 1, signal = 8\<rparr>"
      and t = 8 and code = "Some 0" and evs' = "[Close 1 None]"]
  from T a have d: "in_flight (runNext (set_stage 0 Finished cancelled_in_queue))
     (length (execs (set_stage 0 Finished cancelled_in_queue)))" by blast
  from T b c have e: "abort 8 (on_finally 0 cancelled_in_queue) = on_finally 0 cancelled_in_queue \<and>
    settled (execs (run_events [Close 1 None] (on_finally 0 cancelled_in_queue)) ! 1)
     \<noteq> Some (Rejected Aborted)" by blast
  from a b c d e show ?thesis by blast
qed


end
